theory Spec2Isabelle
  imports Complex_Main "HOL-Library.Multiset"
begin

section \<open>Scores\<close>

text \<open>
  The sorted set stores scores as C++ \<open>double\<close>. The code only ever compares scores
  (\<open><\<close>, \<open>></\<close>, \<open><=\<close>, \<open>>=\<close>, \<open>!=\<close>, \<open>==\<close>), so a double is modelled by the number it
  denotes, or by \<open>NaN\<close>. Every ordered comparison with NaN is false and \<open>!=\<close> with NaN is
  true, as IEEE-754 prescribes.
\<close>

datatype score = Num real | NaN

fun score_lt :: "score \<Rightarrow> score \<Rightarrow> bool" where
  "score_lt (Num a) (Num b) = (a < b)"
| "score_lt _ _ = False"

definition score_gt :: "score \<Rightarrow> score \<Rightarrow> bool" where
  "score_gt a b = score_lt b a"

fun score_le :: "score \<Rightarrow> score \<Rightarrow> bool" where
  "score_le (Num a) (Num b) = (a \<le> b)"
| "score_le _ _ = False"

definition score_ge :: "score \<Rightarrow> score \<Rightarrow> bool" where
  "score_ge a b = score_le b a"

fun score_eq :: "score \<Rightarrow> score \<Rightarrow> bool" where
  "score_eq (Num a) (Num b) = (a = b)"
| "score_eq _ _ = False"

definition score_ne :: "score \<Rightarrow> score \<Rightarrow> bool" where
  "score_ne a b = (\<not> score_eq a b)"

section \<open>AVLTree<double, std::string> (avl_tree.h)\<close>

text \<open>
  A \<open>std::unique_ptr<Node>\<close> is either null or owns a node with the fields of the C++
  struct, in the order of its declaration. The member \<open>size_\<close> is threaded through
  \<open>insert_node\<close> and \<open>remove_node\<close> as an explicit argument and result.
\<close>

datatype node =
    Null
  | Node (node_key: score) (node_value: string) (node_height: int) (node_left: node) (node_right: node)

fun height :: "node \<Rightarrow> int" where
  "height Null = 0"
| "height (Node k v h l r) = h"

fun balance_factor :: "node \<Rightarrow> int" where
  "balance_factor Null = 0"
| "balance_factor (Node k v h l r) = height l - height r"

fun update_height :: "node \<Rightarrow> node" where
  "update_height Null = Null"
| "update_height (Node k v h l r) = Node k v (1 + max (height l) (height r)) l r"

text \<open>
  The rotations dereference the child that moves up. On a node without that child the
  C++ dereferences a null pointer; \<open>balance\<close> never calls them so (the child is higher
  than its sibling by two), and the model returns the node unchanged there.
\<close>

fun rotate_right :: "node \<Rightarrow> node" where
  "rotate_right (Node yk yv yh (Node xk xv xh xl xr) yr) =
     update_height (Node xk xv xh xl (update_height (Node yk yv yh xr yr)))"
| "rotate_right y = y"

fun rotate_left :: "node \<Rightarrow> node" where
  "rotate_left (Node xk xv xh xl (Node yk yv yh yl yr)) =
     update_height (Node yk yv yh (update_height (Node xk xv xh xl yl)) yr)"
| "rotate_left x = x"

fun balance :: "node \<Rightarrow> node" where
  "balance Null = Null"
| "balance (Node k v h l r) =
     (let h' = 1 + max (height l) (height r);
          bf = height l - height r
      in if bf > 1 then
           rotate_right (Node k v h' (if balance_factor l < 0 then rotate_left l else l) r)
         else if bf < - 1 then
           rotate_left (Node k v h' l (if balance_factor r > 0 then rotate_right r else r))
         else Node k v h' l r)"

text \<open>
  \<open>size_\<close> is a \<open>size_t\<close>. \<open>size_--\<close> at zero would wrap to \<open>2^64 - 1\<close>; the
  increment is not bounded, the number of nodes being limited by memory.
\<close>

definition size_dec :: "nat \<Rightarrow> nat" where
  "size_dec n = (if n = 0 then 2 ^ 64 - 1 else n - 1)"

fun insert_node :: "node \<Rightarrow> score \<Rightarrow> string \<Rightarrow> nat \<Rightarrow> node \<times> nat" where
  "insert_node Null k' v' sz = (Node k' v' 1 Null Null, sz + 1)"
| "insert_node (Node k v h l r) k' v' sz =
     (if score_lt k' k then
        (case insert_node l k' v' sz of (l', sz') \<Rightarrow> (balance (Node k v h l' r), sz'))
      else if score_gt k' k then
        (case insert_node r k' v' sz of (r', sz') \<Rightarrow> (balance (Node k v h l r'), sz'))
      else (Node k v' h l r, sz))"

fun find_min :: "node \<Rightarrow> node" where
  "find_min (Node k v h l r) = (if l \<noteq> Null then find_min l else Node k v h l r)"
| "find_min Null = Null"

fun remove_node :: "node \<Rightarrow> score \<Rightarrow> nat \<Rightarrow> node \<times> nat" where
  "remove_node Null k' sz = (Null, sz)"
| "remove_node (Node k v h l r) k' sz =
     (if score_lt k' k then
        (case remove_node l k' sz of (l', sz') \<Rightarrow> (balance (Node k v h l' r), sz'))
      else if score_gt k' k then
        (case remove_node r k' sz of (r', sz') \<Rightarrow> (balance (Node k v h l r'), sz'))
      else if l = Null \<and> r = Null then (Null, size_dec sz)
      else if l = Null then (r, size_dec sz)
      else if r = Null then (l, size_dec sz)
      else
        (let successor = find_min r
         in case remove_node r (node_key successor) sz of
              (r', sz') \<Rightarrow>
                (balance (Node (node_key successor) (node_value successor) h l r'), sz')))"

fun find_node :: "node \<Rightarrow> score \<Rightarrow> node" where
  "find_node Null k' = Null"
| "find_node (Node k v h l r) k' =
     (if score_lt k' k then find_node l k'
      else if score_gt k' k then find_node r k'
      else Node k v h l r)"

fun inorder_traversal :: "node \<Rightarrow> (score \<times> string) list \<Rightarrow> (score \<times> string) list" where
  "inorder_traversal Null result = result"
| "inorder_traversal (Node k v h l r) result =
     inorder_traversal r (inorder_traversal l result @ [(k, v)])"

fun range_query :: "node \<Rightarrow> score \<Rightarrow> score \<Rightarrow> (score \<times> string) list \<Rightarrow> (score \<times> string) list" where
  "range_query Null min_key max_key result = result"
| "range_query (Node k v h l r) min_key max_key result =
     (let r1 = (if score_gt k min_key then range_query l min_key max_key result else result);
          r2 = (if score_ge k min_key \<and> score_le k max_key then r1 @ [(k, v)] else r1)
      in if score_lt k max_key then range_query r min_key max_key r2 else r2)"

record AVLTree =
  avl_root :: node
  avl_size :: nat

definition AVLTree_new :: AVLTree where
  "AVLTree_new = \<lparr>avl_root = Null, avl_size = 0\<rparr>"

definition AVLTree_insert :: "AVLTree \<Rightarrow> score \<Rightarrow> string \<Rightarrow> AVLTree" where
  "AVLTree_insert t k v =
     (case insert_node (avl_root t) k v (avl_size t) of (n, sz) \<Rightarrow> \<lparr>avl_root = n, avl_size = sz\<rparr>)"

definition AVLTree_remove :: "AVLTree \<Rightarrow> score \<Rightarrow> bool \<times> AVLTree" where
  "AVLTree_remove t k =
     (case remove_node (avl_root t) k (avl_size t) of
        (n, sz) \<Rightarrow> (sz < avl_size t, \<lparr>avl_root = n, avl_size = sz\<rparr>))"

definition AVLTree_find :: "AVLTree \<Rightarrow> score \<Rightarrow> string option" where
  "AVLTree_find t k =
     (case find_node (avl_root t) k of Null \<Rightarrow> None | Node k' v h l r \<Rightarrow> Some v)"

definition AVLTree_size :: "AVLTree \<Rightarrow> nat" where
  "AVLTree_size t = avl_size t"

definition AVLTree_clear :: "AVLTree \<Rightarrow> AVLTree" where
  "AVLTree_clear t = \<lparr>avl_root = Null, avl_size = 0\<rparr>"

definition AVLTree_range :: "AVLTree \<Rightarrow> score \<Rightarrow> score \<Rightarrow> (score \<times> string) list" where
  "AVLTree_range t min_key max_key = range_query (avl_root t) min_key max_key []"

definition AVLTree_get_all :: "AVLTree \<Rightarrow> (score \<times> string) list" where
  "AVLTree_get_all t = inorder_traversal (avl_root t) []"

section \<open>SortedSet (sorted_set.h, sorted_set.cpp)\<close>

text \<open>
  \<open>score_tree\<close> is declared as \<open>AVLTree<double, std::string>\<close>: the ordered index is keyed
  by the score alone. \<open>member_scores\<close> is a \<open>std::unordered_map<std::string, double>\<close>.
  The mutex is held for the whole of every method, so each method is one atomic step.
\<close>

record SortedSet =
  score_tree :: AVLTree
  member_scores :: "string \<rightharpoonup> score"

definition SortedSet_new :: SortedSet where
  "SortedSet_new = \<lparr>score_tree = AVLTree_new, member_scores = Map.empty\<rparr>"

definition SortedSet_add :: "SortedSet \<Rightarrow> string \<Rightarrow> score \<Rightarrow> bool \<times> SortedSet" where
  "SortedSet_add s member sc =
     (case member_scores s member of
        Some old \<Rightarrow>
          if score_ne old sc then
            (let t1 = snd (AVLTree_remove (score_tree s) old);
                 t2 = AVLTree_insert t1 sc member
             in (True, \<lparr>score_tree = t2, member_scores = (member_scores s)(member \<mapsto> sc)\<rparr>))
          else (False, s)
      | None \<Rightarrow>
          (True, \<lparr>score_tree = AVLTree_insert (score_tree s) sc member,
                  member_scores = (member_scores s)(member \<mapsto> sc)\<rparr>))"

definition SortedSet_remove :: "SortedSet \<Rightarrow> string \<Rightarrow> bool \<times> SortedSet" where
  "SortedSet_remove s member =
     (case member_scores s member of
        Some old \<Rightarrow>
          (True, \<lparr>score_tree = snd (AVLTree_remove (score_tree s) old),
                  member_scores = (member_scores s)(member := None)\<rparr>)
      | None \<Rightarrow> (False, s))"

definition SortedSet_get_score :: "SortedSet \<Rightarrow> string \<Rightarrow> score option" where
  "SortedSet_get_score s member = member_scores s member"

definition SortedSet_size :: "SortedSet \<Rightarrow> nat" where
  "SortedSet_size s = card (dom (member_scores s))"

definition SortedSet_clear :: "SortedSet \<Rightarrow> SortedSet" where
  "SortedSet_clear s = \<lparr>score_tree = AVLTree_clear (score_tree s), member_scores = Map.empty\<rparr>"

definition SortedSet_range_by_score :: "SortedSet \<Rightarrow> score \<Rightarrow> score \<Rightarrow> (string \<times> score) list" where
  "SortedSet_range_by_score s min_score max_score =
     map (\<lambda>(sc, member). (member, sc)) (AVLTree_range (score_tree s) min_score max_score)"

text \<open>
  \<open>range_by_rank\<close> reserves \<open>stop - start + 1\<close> elements, a \<open>size_t\<close>. When the clamped
  \<open>stop\<close> is below \<open>start - 1\<close> that number wraps to more than a vector can hold and
  \<open>reserve\<close> throws \<open>std::length_error\<close>: the result \<open>None\<close>.
\<close>

definition SortedSet_range_by_rank :: "SortedSet \<Rightarrow> nat \<Rightarrow> nat \<Rightarrow> (string \<times> score) list option" where
  "SortedSet_range_by_rank s start stop =
     (let all = AVLTree_get_all (score_tree s)
      in if start \<ge> length all then Some []
         else
           (let stop' = min stop (length all - 1)
            in if stop' + 1 < start then None
               else Some (map (\<lambda>(sc, member). (member, sc))
                            (take (stop' + 1 - start) (drop start all)))))"

fun rank_scan :: "(score \<times> string) list \<Rightarrow> score \<Rightarrow> string \<Rightarrow> nat \<Rightarrow> nat option" where
  "rank_scan [] sc member i = None"
| "rank_scan ((k, v) # rest) sc member i =
     (if score_eq k sc \<and> v = member then Some i else rank_scan rest sc member (i + 1))"

definition SortedSet_rank :: "SortedSet \<Rightarrow> string \<Rightarrow> nat option" where
  "SortedSet_rank s member =
     (case member_scores s member of
        None \<Rightarrow> None
      | Some sc \<Rightarrow> rank_scan (AVLTree_get_all (score_tree s)) sc member 0)"

section \<open>TTLHeap (heap.h, heap.cpp)\<close>

text \<open>
  A \<open>TimePoint\<close> of the steady clock is its tick count, an integer. \<open>heap_\<close> is a
  \<open>std::vector<TTLEntry>\<close>, \<open>key_to_index_\<close> a \<open>std::unordered_map<std::string, size_t>\<close>.
  \<open>TTLEntry::operator<\<close> compares the expiries. Every public method holds the mutex
  throughout and is one atomic step; the clock read by \<open>get_expired_keys\<close> is its
  argument \<open>now\<close>.
\<close>

record TTLEntry =
  ttl_key :: string
  ttl_expiry :: int

record TTLHeap =
  heap :: "TTLEntry list"
  key_to_index :: "string \<rightharpoonup> nat"

definition TTLHeap_new :: TTLHeap where
  "TTLHeap_new = \<lparr>heap = [], key_to_index = Map.empty\<rparr>"

definition swap_entries :: "TTLHeap \<Rightarrow> nat \<Rightarrow> nat \<Rightarrow> TTLHeap" where
  "swap_entries h i j =
     (let hp = (heap h)[i := heap h ! j, j := heap h ! i];
          m1 = (key_to_index h)(ttl_key (hp ! i) \<mapsto> i);
          m2 = m1(ttl_key (hp ! j) \<mapsto> j)
      in \<lparr>heap = hp, key_to_index = m2\<rparr>)"

lemma length_swap_entries: "length (heap (swap_entries h i j)) = length (heap h)"
  by (simp add: swap_entries_def Let_def)

function heapify_up :: "TTLHeap \<Rightarrow> nat \<Rightarrow> TTLHeap" where
  "heapify_up h index =
     (if index > 0 then
        (if ttl_expiry (heap h ! index) < ttl_expiry (heap h ! ((index - 1) div 2)) then
           heapify_up (swap_entries h index ((index - 1) div 2)) ((index - 1) div 2)
         else h)
      else h)"
  by pat_completeness auto
termination
  by (relation "measure (\<lambda>(h, index). index)") auto

declare heapify_up.simps [simp del]

definition smallest_of :: "TTLHeap \<Rightarrow> nat \<Rightarrow> nat" where
  "smallest_of h index =
     (let size = length (heap h);
          left_child = 2 * index + 1;
          right_child = 2 * index + 2;
          smallest = (if left_child < size \<and>
                         ttl_expiry (heap h ! left_child) < ttl_expiry (heap h ! index)
                      then left_child else index)
      in if right_child < size \<and>
            ttl_expiry (heap h ! right_child) < ttl_expiry (heap h ! smallest)
         then right_child else smallest)"

lemma smallest_of_bounds:
  "smallest_of h index \<noteq> index \<Longrightarrow>
     index < smallest_of h index \<and> smallest_of h index < length (heap h)"
  by (auto simp: smallest_of_def Let_def split: if_splits)

function heapify_down :: "TTLHeap \<Rightarrow> nat \<Rightarrow> TTLHeap" where
  "heapify_down h index =
     (if smallest_of h index \<noteq> index then
        heapify_down (swap_entries h index (smallest_of h index)) (smallest_of h index)
      else h)"
  by pat_completeness auto
termination
proof (relation "measure (\<lambda>(h, index). length (heap h) - index)")
  show "wf (measure (\<lambda>(h, index). length (heap h) - index))" by simp
next
  fix h :: TTLHeap and index :: nat
  assume "smallest_of h index \<noteq> index"
  then have "index < smallest_of h index \<and> smallest_of h index < length (heap h)"
    by (rule smallest_of_bounds)
  then show "((swap_entries h index (smallest_of h index), smallest_of h index), (h, index))
               \<in> measure (\<lambda>(h, index). length (heap h) - index)"
    by (simp add: length_swap_entries) arith
qed

declare heapify_down.simps [simp del]

lemma length_heapify_down: "length (heap (heapify_down h i)) = length (heap h)"
proof (induction h i rule: heapify_down.induct)
  case (1 h index)
  show ?case
  proof (cases "smallest_of h index \<noteq> index")
    case True
    then show ?thesis
      using "1.IH" by (subst heapify_down.simps) (simp add: length_swap_entries)
  next
    case False
    then show ?thesis by (subst heapify_down.simps) simp
  qed
qed

lemma length_heapify_up: "length (heap (heapify_up h i)) = length (heap h)"
proof (induction h i rule: heapify_up.induct)
  case (1 h index)
  show ?case
  proof (cases "index > 0 \<and>
      ttl_expiry (heap h ! index) < ttl_expiry (heap h ! ((index - 1) div 2))")
    case True
    then show ?thesis
      using "1.IH" by (subst heapify_up.simps) (simp add: length_swap_entries)
  next
    case False
    then show ?thesis by (subst heapify_up.simps) auto
  qed
qed

definition set_expiry :: "TTLHeap \<Rightarrow> nat \<Rightarrow> int \<Rightarrow> TTLHeap" where
  "set_expiry h index expiry =
     h\<lparr>heap := (heap h)[index := (heap h ! index)\<lparr>ttl_expiry := expiry\<rparr>]\<rparr>"

definition TTLHeap_add :: "TTLHeap \<Rightarrow> string \<Rightarrow> int \<Rightarrow> TTLHeap" where
  "TTLHeap_add h k expiry =
     (case key_to_index h k of
        Some index \<Rightarrow> heapify_down (heapify_up (set_expiry h index expiry) index) index
      | None \<Rightarrow>
          heapify_up
            \<lparr>heap = heap h @ [\<lparr>ttl_key = k, ttl_expiry = expiry\<rparr>],
             key_to_index = (key_to_index h)(k \<mapsto> length (heap h))\<rparr>
            (length (heap h)))"

text \<open>
  \<open>update\<close> holds \<open>mutex_\<close> for its whole body. For a key that is not in the heap it
  calls \<open>add\<close>, which locks the same \<open>std::mutex\<close> again; the mutex is not recursive, so
  that call does not return. Not returning is the result \<open>None\<close>.
\<close>

definition TTLHeap_update :: "TTLHeap \<Rightarrow> string \<Rightarrow> int \<Rightarrow> TTLHeap option" where
  "TTLHeap_update h k expiry =
     (case key_to_index h k of
        Some index \<Rightarrow>
          (let old_expiry = ttl_expiry (heap h ! index);
               h' = set_expiry h index expiry
           in Some (if expiry < old_expiry then heapify_up h' index else heapify_down h' index))
      | None \<Rightarrow> None)"

definition pop_back_erase :: "TTLHeap \<Rightarrow> string \<Rightarrow> TTLHeap" where
  "pop_back_erase h k =
     \<lparr>heap = butlast (heap h), key_to_index = (key_to_index h)(k := None)\<rparr>"

definition TTLHeap_remove :: "TTLHeap \<Rightarrow> string \<Rightarrow> TTLHeap" where
  "TTLHeap_remove h k =
     (case key_to_index h k of
        None \<Rightarrow> h
      | Some index \<Rightarrow>
          (let last_index = length (heap h) - 1
           in if index \<noteq> last_index then
                (let h' = pop_back_erase (swap_entries h index last_index) k
                 in if heap h' \<noteq> [] then heapify_down h' index else h')
              else pop_back_erase h k))"

function expired_loop :: "TTLHeap \<Rightarrow> int \<Rightarrow> string list \<Rightarrow> string list \<times> TTLHeap" where
  "expired_loop h now expired_keys =
     (if heap h \<noteq> [] \<and> ttl_expiry (heap h ! 0) \<le> now then
        expired_loop
          (let k = ttl_key (heap h ! 0);
               h' = pop_back_erase (swap_entries h 0 (length (heap h) - 1)) k
           in if heap h' \<noteq> [] then heapify_down h' 0 else h')
          now
          (expired_keys @ [ttl_key (heap h ! 0)])
      else (expired_keys, h))"
  by pat_completeness auto
termination
proof (relation "measure (\<lambda>(h, now, ks). length (heap h))")
  show "wf (measure (\<lambda>(h, now, ks). length (heap h)))" by simp
next
  fix h :: TTLHeap and now :: int and expired_keys :: "string list"
  assume a: "heap h \<noteq> [] \<and> ttl_expiry (heap h ! 0) \<le> now"
  have "length (heap (pop_back_erase (swap_entries h 0 (length (heap h) - 1)) (ttl_key (heap h ! 0))))
          = length (heap h) - 1"
    by (simp add: pop_back_erase_def length_swap_entries)
  with a show "((let k = ttl_key (heap h ! 0);
                    h' = pop_back_erase (swap_entries h 0 (length (heap h) - 1)) k
                in if heap h' \<noteq> [] then heapify_down h' 0 else h',
                now, expired_keys @ [ttl_key (heap h ! 0)]), (h, now, expired_keys))
              \<in> measure (\<lambda>(h, now, ks). length (heap h))"
    by (simp add: Let_def length_heapify_down)
qed

declare expired_loop.simps [simp del]

definition TTLHeap_get_expired_keys :: "TTLHeap \<Rightarrow> int \<Rightarrow> string list \<times> TTLHeap" where
  "TTLHeap_get_expired_keys h now = expired_loop h now []"

definition TTLHeap_size :: "TTLHeap \<Rightarrow> nat" where
  "TTLHeap_size h = length (heap h)"

definition TTLHeap_clear :: "TTLHeap \<Rightarrow> TTLHeap" where
  "TTLHeap_clear h = \<lparr>heap = [], key_to_index = Map.empty\<rparr>"

definition TTLHeap_next_expiry :: "TTLHeap \<Rightarrow> int option" where
  "TTLHeap_next_expiry h = (if heap h = [] then None else Some (ttl_expiry (heap h ! 0)))"

section \<open>Value, Entry and HashTable (hash_table.h, hash_table.cpp)\<close>

text \<open>
  A \<open>Value\<close> is a tag with the payload of that tag. A sorted set is held through a raw
  pointer to an object allocated with \<open>new\<close>; the pointer is an address into the store of
  sorted sets kept in the engine state below, so copies of a \<open>Value\<close> alias one object.
\<close>

datatype Value = STRING string | INTEGER int | SORTED_SET nat | NONE

definition is_string :: "Value \<Rightarrow> bool" where
  "is_string v = (case v of STRING s \<Rightarrow> True | _ \<Rightarrow> False)"

definition is_sorted_set :: "Value \<Rightarrow> bool" where
  "is_sorted_set v = (case v of SORTED_SET p \<Rightarrow> True | _ \<Rightarrow> False)"

function digits_of :: "nat \<Rightarrow> string" where
  "digits_of n = (if n < 10 then [char_of (48 + n)] else digits_of (n div 10) @ [char_of (48 + n mod 10)])"
  by pat_completeness auto
termination
  by (relation "measure (\<lambda>n. n)") auto

declare digits_of.simps [simp del]

definition to_string :: "int \<Rightarrow> string" where
  "to_string n = (if n < 0 then CHR ''-'' # digits_of (nat (- n)) else digits_of (nat n))"

definition as_string :: "Value \<Rightarrow> string" where
  "as_string v =
     (case v of
        STRING s \<Rightarrow> s
      | INTEGER n \<Rightarrow> to_string n
      | SORTED_SET p \<Rightarrow> ''[SORTED_SET]''
      | NONE \<Rightarrow> ''[NONE]'')"

text \<open>
  Instants of the steady clock are tick counts; a \<open>std::chrono::seconds\<close> duration is
  converted to ticks (nanoseconds) when it is added to an instant. Every function that
  reads the clock takes the instant read as the argument \<open>now\<close>.
\<close>

definition ticks_per_second :: int where
  "ticks_per_second = 1000000000"

definition seconds :: "int \<Rightarrow> int" where
  "seconds n = n * ticks_per_second"

record Entry =
  entry_key :: string
  entry_value :: Value
  entry_expiry :: "int option"

definition is_expired :: "Entry \<Rightarrow> int \<Rightarrow> bool" where
  "is_expired e now = (case entry_expiry e of None \<Rightarrow> False | Some t \<Rightarrow> now > t)"

text \<open>
  The repository holds two copies of \<open>hash_table.cpp\<close>. They agree line by line except
  that one of them tests \<open>is_expired\<close> in \<open>get\<close>, \<open>exists\<close> and \<open>resize\<close> and erases the
  expired entry it meets; the copy at \<open>src/data_structures/hash_table.cpp\<close>, which the
  build compiles, never calls \<open>is_expired\<close>. The flag \<open>lazy\<close> selects the copy with the
  tests. \<open>std::hash<std::string>\<close> is the parameter \<open>H\<close>.

  \<open>find_entry\<close> returns the position of the first entry of the bucket with the key, the
  iterator of the source, or \<open>None\<close> for \<open>end()\<close>.
\<close>

record HashTable =
  bucket_count :: nat
  buckets :: "Entry list list"
  ht_size :: nat

definition HashTable_new :: "nat \<Rightarrow> HashTable" where
  "HashTable_new initial_size =
     \<lparr>bucket_count = initial_size, buckets = replicate initial_size [], ht_size = 0\<rparr>"

definition hash_function :: "(string \<Rightarrow> nat) \<Rightarrow> HashTable \<Rightarrow> string \<Rightarrow> nat" where
  "hash_function H ht k = H k mod bucket_count ht"

fun find_pos :: "Entry list \<Rightarrow> string \<Rightarrow> nat option" where
  "find_pos [] k = None"
| "find_pos (e # es) k = (if entry_key e = k then Some 0 else map_option Suc (find_pos es k))"

definition find_entry :: "HashTable \<Rightarrow> string \<Rightarrow> nat \<Rightarrow> nat option" where
  "find_entry ht k bucket_idx = find_pos (buckets ht ! bucket_idx) k"

definition erase :: "'a list \<Rightarrow> nat \<Rightarrow> 'a list" where
  "erase xs i = take i xs @ drop (Suc i) xs"

definition resize_step :: "bool \<Rightarrow> (string \<Rightarrow> nat) \<Rightarrow> int \<Rightarrow> nat \<Rightarrow>
    Entry list list \<times> nat \<Rightarrow> Entry \<Rightarrow> Entry list list \<times> nat" where
  "resize_step lazy H now new_size acc e =
     (case acc of (new_buckets, sz) \<Rightarrow>
        if lazy \<and> is_expired e now then (new_buckets, size_dec sz)
        else (let new_idx = H (entry_key e) mod new_size
              in (new_buckets[new_idx := new_buckets ! new_idx @ [e]], sz)))"

definition resize :: "bool \<Rightarrow> (string \<Rightarrow> nat) \<Rightarrow> int \<Rightarrow> HashTable \<Rightarrow> nat \<Rightarrow> HashTable" where
  "resize lazy H now ht new_size =
     (case foldl (resize_step lazy H now new_size) (replicate new_size [], ht_size ht)
             (concat (buckets ht)) of
        (new_buckets, sz) \<Rightarrow> \<lparr>bucket_count = new_size, buckets = new_buckets, ht_size = sz\<rparr>)"

text \<open>
  \<open>size_ > bucket_count_ * 0.75\<close> compares in \<open>double\<close>; for counts below \<open>2^53\<close> it is
  \<open>4 * size_ > 3 * bucket_count_\<close>.
\<close>

definition resize_if_needed :: "bool \<Rightarrow> (string \<Rightarrow> nat) \<Rightarrow> int \<Rightarrow> HashTable \<Rightarrow> HashTable" where
  "resize_if_needed lazy H now ht =
     (if 4 * ht_size ht > 3 * bucket_count ht then resize lazy H now ht (bucket_count ht * 2)
      else ht)"

definition update_entry :: "HashTable \<Rightarrow> nat \<Rightarrow> nat \<Rightarrow> (Entry \<Rightarrow> Entry) \<Rightarrow> HashTable" where
  "update_entry ht bucket_idx i f =
     ht\<lparr>buckets := (buckets ht)
            [bucket_idx := (buckets ht ! bucket_idx)[i := f (buckets ht ! bucket_idx ! i)]]\<rparr>"

definition erase_entry :: "HashTable \<Rightarrow> nat \<Rightarrow> nat \<Rightarrow> HashTable" where
  "erase_entry ht bucket_idx i =
     ht\<lparr>buckets := (buckets ht)[bucket_idx := erase (buckets ht ! bucket_idx) i],
        ht_size := size_dec (ht_size ht)\<rparr>"

definition emplace_back :: "HashTable \<Rightarrow> nat \<Rightarrow> Entry \<Rightarrow> HashTable" where
  "emplace_back ht bucket_idx e =
     ht\<lparr>buckets := (buckets ht)[bucket_idx := buckets ht ! bucket_idx @ [e]],
        ht_size := ht_size ht + 1\<rparr>"

definition HashTable_set :: "bool \<Rightarrow> (string \<Rightarrow> nat) \<Rightarrow> int \<Rightarrow> HashTable \<Rightarrow> string \<Rightarrow> Value \<Rightarrow>
    bool \<times> HashTable" where
  "HashTable_set lazy H now ht k v =
     (let bucket_idx = hash_function H ht k
      in case find_entry ht k bucket_idx of
           Some i \<Rightarrow>
             (True, update_entry ht bucket_idx i (\<lambda>e. e\<lparr>entry_value := v, entry_expiry := None\<rparr>))
         | None \<Rightarrow>
             (True, resize_if_needed lazy H now
                (emplace_back ht bucket_idx
                   \<lparr>entry_key = k, entry_value = v, entry_expiry = None\<rparr>)))"

definition HashTable_set_with_expiry :: "bool \<Rightarrow> (string \<Rightarrow> nat) \<Rightarrow> int \<Rightarrow> HashTable \<Rightarrow> string \<Rightarrow>
    Value \<Rightarrow> int \<Rightarrow> bool \<times> HashTable" where
  "HashTable_set_with_expiry lazy H now ht k v ttl =
     (let bucket_idx = hash_function H ht k;
          expiry_time = now + seconds ttl
      in case find_entry ht k bucket_idx of
           Some i \<Rightarrow>
             (True, update_entry ht bucket_idx i
                      (\<lambda>e. e\<lparr>entry_value := v, entry_expiry := Some expiry_time\<rparr>))
         | None \<Rightarrow>
             (True, resize_if_needed lazy H now
                (emplace_back ht bucket_idx
                   \<lparr>entry_key = k, entry_value = v, entry_expiry = Some expiry_time\<rparr>)))"

definition HashTable_get :: "bool \<Rightarrow> (string \<Rightarrow> nat) \<Rightarrow> int \<Rightarrow> HashTable \<Rightarrow> string \<Rightarrow>
    Value option \<times> HashTable" where
  "HashTable_get lazy H now ht k =
     (let bucket_idx = hash_function H ht k
      in case find_entry ht k bucket_idx of
           Some i \<Rightarrow>
             if lazy \<and> is_expired (buckets ht ! bucket_idx ! i) now
             then (None, erase_entry ht bucket_idx i)
             else (Some (entry_value (buckets ht ! bucket_idx ! i)), ht)
         | None \<Rightarrow> (None, ht))"

definition HashTable_del :: "(string \<Rightarrow> nat) \<Rightarrow> HashTable \<Rightarrow> string \<Rightarrow> bool \<times> HashTable" where
  "HashTable_del H ht k =
     (let bucket_idx = hash_function H ht k
      in case find_entry ht k bucket_idx of
           Some i \<Rightarrow> (True, erase_entry ht bucket_idx i)
         | None \<Rightarrow> (False, ht))"

definition HashTable_exists :: "bool \<Rightarrow> (string \<Rightarrow> nat) \<Rightarrow> int \<Rightarrow> HashTable \<Rightarrow> string \<Rightarrow>
    bool \<times> HashTable" where
  "HashTable_exists lazy H now ht k =
     (let bucket_idx = hash_function H ht k
      in case find_entry ht k bucket_idx of
           Some i \<Rightarrow>
             if lazy \<and> is_expired (buckets ht ! bucket_idx ! i) now
             then (False, erase_entry ht bucket_idx i)
             else (True, ht)
         | None \<Rightarrow> (False, ht))"

definition HashTable_expire :: "(string \<Rightarrow> nat) \<Rightarrow> int \<Rightarrow> HashTable \<Rightarrow> string \<Rightarrow> int \<Rightarrow>
    bool \<times> HashTable" where
  "HashTable_expire H now ht k ttl =
     (let bucket_idx = hash_function H ht k
      in case find_entry ht k bucket_idx of
           Some i \<Rightarrow>
             (True, update_entry ht bucket_idx i (\<lambda>e. e\<lparr>entry_expiry := Some (now + seconds ttl)\<rparr>))
         | None \<Rightarrow> (False, ht))"

definition HashTable_size :: "HashTable \<Rightarrow> nat" where
  "HashTable_size ht = ht_size ht"

definition HashTable_clear :: "HashTable \<Rightarrow> HashTable" where
  "HashTable_clear ht = ht\<lparr>buckets := map (\<lambda>b. []) (buckets ht), ht_size := 0\<rparr>"

section \<open>StorageEngine (storage_engine.h, storage_engine.cpp)\<close>

text \<open>
  The engine owns the hash table and the TTL heap. \<open>sorted_sets\<close> is the free store of the
  \<open>SortedSet\<close> objects created by \<open>new SortedSet()\<close>, \<open>next_ptr\<close> the next fresh address.
  A method is modelled at two instants: \<open>now\<close>, read by the hash-table calls it makes,
  and \<open>now2\<close>, read afterwards by the method itself (\<open>set_ex\<close>, \<open>expire\<close>).
\<close>

record StorageEngine =
  hash_table :: HashTable
  ttl_heap :: TTLHeap
  sorted_sets :: "nat \<rightharpoonup> SortedSet"
  next_ptr :: nat

definition StorageEngine_new :: StorageEngine where
  "StorageEngine_new =
     \<lparr>hash_table = HashTable_new 1024, ttl_heap = TTLHeap_new,
      sorted_sets = Map.empty, next_ptr = 0\<rparr>"

definition StorageEngine_set :: "bool \<Rightarrow> (string \<Rightarrow> nat) \<Rightarrow> int \<Rightarrow> StorageEngine \<Rightarrow> string \<Rightarrow> string \<Rightarrow>
    bool \<times> StorageEngine" where
  "StorageEngine_set lazy H now s k v =
     (case HashTable_set lazy H now (hash_table s) k (STRING v) of
        (r, ht) \<Rightarrow> (r, s\<lparr>hash_table := ht\<rparr>))"

definition StorageEngine_set_nx :: "bool \<Rightarrow> (string \<Rightarrow> nat) \<Rightarrow> int \<Rightarrow> StorageEngine \<Rightarrow> string \<Rightarrow> string \<Rightarrow>
    bool \<times> StorageEngine" where
  "StorageEngine_set_nx lazy H now s k v =
     (case HashTable_exists lazy H now (hash_table s) k of
        (True, ht) \<Rightarrow> (False, s\<lparr>hash_table := ht\<rparr>)
      | (False, ht) \<Rightarrow> StorageEngine_set lazy H now (s\<lparr>hash_table := ht\<rparr>) k v)"

definition StorageEngine_set_ex :: "bool \<Rightarrow> (string \<Rightarrow> nat) \<Rightarrow> int \<Rightarrow> int \<Rightarrow> StorageEngine \<Rightarrow> string \<Rightarrow>
    string \<Rightarrow> int \<Rightarrow> bool \<times> StorageEngine" where
  "StorageEngine_set_ex lazy H now now2 s k v ttl =
     (case HashTable_set_with_expiry lazy H now (hash_table s) k (STRING v) ttl of
        (result, ht) \<Rightarrow>
          if result then
            (result, s\<lparr>hash_table := ht, ttl_heap := TTLHeap_add (ttl_heap s) k (now2 + seconds ttl)\<rparr>)
          else (result, s\<lparr>hash_table := ht\<rparr>))"

definition StorageEngine_get :: "bool \<Rightarrow> (string \<Rightarrow> nat) \<Rightarrow> int \<Rightarrow> StorageEngine \<Rightarrow> string \<Rightarrow>
    string option \<times> StorageEngine" where
  "StorageEngine_get lazy H now s k =
     (case HashTable_get lazy H now (hash_table s) k of
        (value_opt, ht) \<Rightarrow>
          (case value_opt of
             Some v \<Rightarrow> if is_string v then Some (as_string v) else None
           | None \<Rightarrow> None,
           s\<lparr>hash_table := ht\<rparr>))"

definition StorageEngine_del :: "(string \<Rightarrow> nat) \<Rightarrow> StorageEngine \<Rightarrow> string \<Rightarrow> bool \<times> StorageEngine" where
  "StorageEngine_del H s k =
     (case HashTable_del H (hash_table s) k of
        (result, ht) \<Rightarrow>
          if result then (result, s\<lparr>hash_table := ht, ttl_heap := TTLHeap_remove (ttl_heap s) k\<rparr>)
          else (result, s\<lparr>hash_table := ht\<rparr>))"

definition StorageEngine_exists :: "bool \<Rightarrow> (string \<Rightarrow> nat) \<Rightarrow> int \<Rightarrow> StorageEngine \<Rightarrow> string \<Rightarrow>
    bool \<times> StorageEngine" where
  "StorageEngine_exists lazy H now s k =
     (case HashTable_exists lazy H now (hash_table s) k of
        (r, ht) \<Rightarrow> (r, s\<lparr>hash_table := ht\<rparr>))"

definition StorageEngine_expire :: "bool \<Rightarrow> (string \<Rightarrow> nat) \<Rightarrow> int \<Rightarrow> int \<Rightarrow> StorageEngine \<Rightarrow> string \<Rightarrow>
    int \<Rightarrow> bool \<times> StorageEngine" where
  "StorageEngine_expire lazy H now now2 s k ttl =
     (case HashTable_exists lazy H now (hash_table s) k of
        (False, ht) \<Rightarrow> (False, s\<lparr>hash_table := ht\<rparr>)
      | (True, ht) \<Rightarrow>
          (case HashTable_expire H now ht k ttl of
             (result, ht') \<Rightarrow>
               if result then
                 (result, s\<lparr>hash_table := ht',
                             ttl_heap := TTLHeap_add (ttl_heap s) k (now2 + seconds ttl)\<rparr>)
               else (result, s\<lparr>hash_table := ht'\<rparr>)))"

definition StorageEngine_ttl :: "bool \<Rightarrow> (string \<Rightarrow> nat) \<Rightarrow> int \<Rightarrow> StorageEngine \<Rightarrow> string \<Rightarrow>
    int option \<times> StorageEngine" where
  "StorageEngine_ttl lazy H now s k =
     (case HashTable_exists lazy H now (hash_table s) k of
        (False, ht) \<Rightarrow> (None, s\<lparr>hash_table := ht\<rparr>)
      | (True, ht) \<Rightarrow> (Some 0, s\<lparr>hash_table := ht\<rparr>))"

definition get_sorted_set :: "bool \<Rightarrow> (string \<Rightarrow> nat) \<Rightarrow> int \<Rightarrow> StorageEngine \<Rightarrow> string \<Rightarrow> bool \<Rightarrow>
    nat option \<times> StorageEngine" where
  "get_sorted_set lazy H now s k create_if_missing =
     (case HashTable_get lazy H now (hash_table s) k of
        (Some v, ht) \<Rightarrow>
          (case v of
             SORTED_SET p \<Rightarrow> (Some p, s\<lparr>hash_table := ht\<rparr>)
           | _ \<Rightarrow> (None, s\<lparr>hash_table := ht\<rparr>))
      | (None, ht) \<Rightarrow>
          if create_if_missing then
            (let p = next_ptr s
             in (Some p,
                 s\<lparr>hash_table := snd (HashTable_set lazy H now ht k (SORTED_SET p)),
                   sorted_sets := (sorted_sets s)(p \<mapsto> SortedSet_new),
                   next_ptr := p + 1\<rparr>))
          else (None, s\<lparr>hash_table := ht\<rparr>))"

text \<open>
  A pointer returned by \<open>get_sorted_set\<close> always refers to a live object (sorted sets
  are never freed); the branch for a pointer outside the store is not reachable.
\<close>

definition StorageEngine_zadd :: "bool \<Rightarrow> (string \<Rightarrow> nat) \<Rightarrow> int \<Rightarrow> StorageEngine \<Rightarrow> string \<Rightarrow> string \<Rightarrow>
    score \<Rightarrow> bool \<times> StorageEngine" where
  "StorageEngine_zadd lazy H now s k member sc =
     (case get_sorted_set lazy H now s k True of
        (None, s') \<Rightarrow> (False, s')
      | (Some p, s') \<Rightarrow>
          (case sorted_sets s' p of
             None \<Rightarrow> (False, s')
           | Some zset \<Rightarrow>
               (case SortedSet_add zset member sc of
                  (r, zset') \<Rightarrow> (r, s'\<lparr>sorted_sets := (sorted_sets s')(p \<mapsto> zset')\<rparr>))))"

definition StorageEngine_zrem :: "bool \<Rightarrow> (string \<Rightarrow> nat) \<Rightarrow> int \<Rightarrow> StorageEngine \<Rightarrow> string \<Rightarrow> string \<Rightarrow>
    bool \<times> StorageEngine" where
  "StorageEngine_zrem lazy H now s k member =
     (case get_sorted_set lazy H now s k False of
        (None, s') \<Rightarrow> (False, s')
      | (Some p, s') \<Rightarrow>
          (case sorted_sets s' p of
             None \<Rightarrow> (False, s')
           | Some zset \<Rightarrow>
               (case SortedSet_remove zset member of
                  (r, zset') \<Rightarrow> (r, s'\<lparr>sorted_sets := (sorted_sets s')(p \<mapsto> zset')\<rparr>))))"

definition StorageEngine_zscore :: "bool \<Rightarrow> (string \<Rightarrow> nat) \<Rightarrow> int \<Rightarrow> StorageEngine \<Rightarrow> string \<Rightarrow> string \<Rightarrow>
    score option \<times> StorageEngine" where
  "StorageEngine_zscore lazy H now s k member =
     (case get_sorted_set lazy H now s k False of
        (None, s') \<Rightarrow> (None, s')
      | (Some p, s') \<Rightarrow>
          (case sorted_sets s' p of
             None \<Rightarrow> (None, s')
           | Some zset \<Rightarrow> (SortedSet_get_score zset member, s')))"

definition StorageEngine_zrange :: "bool \<Rightarrow> (string \<Rightarrow> nat) \<Rightarrow> int \<Rightarrow> StorageEngine \<Rightarrow> string \<Rightarrow> nat \<Rightarrow>
    nat \<Rightarrow> (string \<times> score) list option \<times> StorageEngine" where
  "StorageEngine_zrange lazy H now s k start stop =
     (case get_sorted_set lazy H now s k False of
        (None, s') \<Rightarrow> (Some [], s')
      | (Some p, s') \<Rightarrow>
          (case sorted_sets s' p of
             None \<Rightarrow> (Some [], s')
           | Some zset \<Rightarrow> (SortedSet_range_by_rank zset start stop, s')))"

definition StorageEngine_zrangebyscore :: "bool \<Rightarrow> (string \<Rightarrow> nat) \<Rightarrow> int \<Rightarrow> StorageEngine \<Rightarrow> string \<Rightarrow>
    score \<Rightarrow> score \<Rightarrow> (string \<times> score) list \<times> StorageEngine" where
  "StorageEngine_zrangebyscore lazy H now s k min_score max_score =
     (case get_sorted_set lazy H now s k False of
        (None, s') \<Rightarrow> ([], s')
      | (Some p, s') \<Rightarrow>
          (case sorted_sets s' p of
             None \<Rightarrow> ([], s')
           | Some zset \<Rightarrow> (SortedSet_range_by_score zset min_score max_score, s')))"

definition StorageEngine_zrank :: "bool \<Rightarrow> (string \<Rightarrow> nat) \<Rightarrow> int \<Rightarrow> StorageEngine \<Rightarrow> string \<Rightarrow> string \<Rightarrow>
    nat option \<times> StorageEngine" where
  "StorageEngine_zrank lazy H now s k member =
     (case get_sorted_set lazy H now s k False of
        (None, s') \<Rightarrow> (None, s')
      | (Some p, s') \<Rightarrow>
          (case sorted_sets s' p of
             None \<Rightarrow> (None, s')
           | Some zset \<Rightarrow> (SortedSet_rank zset member, s')))"

definition StorageEngine_zcard :: "bool \<Rightarrow> (string \<Rightarrow> nat) \<Rightarrow> int \<Rightarrow> StorageEngine \<Rightarrow> string \<Rightarrow>
    nat \<times> StorageEngine" where
  "StorageEngine_zcard lazy H now s k =
     (case get_sorted_set lazy H now s k False of
        (None, s') \<Rightarrow> (0, s')
      | (Some p, s') \<Rightarrow>
          (case sorted_sets s' p of
             None \<Rightarrow> (0, s')
           | Some zset \<Rightarrow> (SortedSet_size zset, s')))"

definition StorageEngine_dbsize :: "StorageEngine \<Rightarrow> nat" where
  "StorageEngine_dbsize s = HashTable_size (hash_table s)"

definition StorageEngine_flushdb :: "StorageEngine \<Rightarrow> StorageEngine" where
  "StorageEngine_flushdb s =
     s\<lparr>hash_table := HashTable_clear (hash_table s), ttl_heap := TTLHeap_clear (ttl_heap s)\<rparr>"

text \<open>One pass of the expiry worker, at the instant \<open>now\<close> read by \<open>get_expired_keys\<close>.\<close>

definition process_expired_keys :: "(string \<Rightarrow> nat) \<Rightarrow> int \<Rightarrow> StorageEngine \<Rightarrow> StorageEngine" where
  "process_expired_keys H now s =
     (case TTLHeap_get_expired_keys (ttl_heap s) now of
        (expired_keys, h) \<Rightarrow>
          s\<lparr>ttl_heap := h,
            hash_table := foldl (\<lambda>ht k. snd (HashTable_del H ht k)) (hash_table s) expired_keys\<rparr>)"

section \<open>CommandHandler (command_handler.h, command_handler.cpp)\<close>

text \<open>
  A response is its type with the payload the type carries. The argument vector holds
  the command name at index 0. \<open>std::stod\<close> and \<open>std::stoi\<close> are the parameters \<open>stod\<close>
  and \<open>stoi\<close>: \<open>None\<close> stands for the exception they throw on a token they cannot
  convert. A command is handled at one instant \<open>now\<close>.
\<close>

datatype CommandResponse =
    RString string
  | RInteger int
  | RArray "CommandResponse list"
  | RError string
  | RNil

definition cmd_get :: "bool \<Rightarrow> (string \<Rightarrow> nat) \<Rightarrow> int \<Rightarrow> string list \<Rightarrow> StorageEngine \<Rightarrow>
    CommandResponse \<times> StorageEngine" where
  "cmd_get lazy H now args storage =
     (if length args \<noteq> 2 then
        (RError ''ERR wrong number of arguments for 'get' command'', storage)
      else
        (case StorageEngine_get lazy H now storage (args ! 1) of
           (Some v, s) \<Rightarrow> (RString v, s)
         | (None, s) \<Rightarrow> (RNil, s)))"

definition cmd_set :: "(string \<Rightarrow> int option) \<Rightarrow> bool \<Rightarrow> (string \<Rightarrow> nat) \<Rightarrow> int \<Rightarrow> string list \<Rightarrow>
    StorageEngine \<Rightarrow> CommandResponse \<times> StorageEngine" where
  "cmd_set stoi lazy H now args storage =
     (if length args < 3 then
        (RError ''ERR wrong number of arguments for 'set' command'', storage)
      else if length args \<ge> 5 \<and> (args ! 3 = ''EX'' \<or> args ! 3 = ''ex'') then
        (case stoi (args ! 4) of
           None \<Rightarrow> (RError ''ERR invalid expire time in 'set' command'', storage)
         | Some secs \<Rightarrow>
             if secs \<le> 0 then (RError ''ERR invalid expire time in 'set' command'', storage)
             else
               (case StorageEngine_set_ex lazy H now now storage (args ! 1) (args ! 2) secs of
                  (result, s) \<Rightarrow> (if result then RString ''OK'' else RError ''ERR set failed'', s)))
      else if length args \<ge> 4 \<and> (args ! 3 = ''NX'' \<or> args ! 3 = ''nx'') then
        (case StorageEngine_set_nx lazy H now storage (args ! 1) (args ! 2) of
           (result, s) \<Rightarrow> (if result then RString ''OK'' else RNil, s))
      else
        (case StorageEngine_set lazy H now storage (args ! 1) (args ! 2) of
           (result, s) \<Rightarrow> (if result then RString ''OK'' else RError ''ERR set failed'', s)))"

definition cmd_expire :: "(string \<Rightarrow> int option) \<Rightarrow> bool \<Rightarrow> (string \<Rightarrow> nat) \<Rightarrow> int \<Rightarrow> string list \<Rightarrow>
    StorageEngine \<Rightarrow> CommandResponse \<times> StorageEngine" where
  "cmd_expire stoi lazy H now args storage =
     (if length args \<noteq> 3 then
        (RError ''ERR wrong number of arguments for 'expire' command'', storage)
      else
        (case stoi (args ! 2) of
           None \<Rightarrow> (RError ''ERR invalid expire time in 'expire' command'', storage)
         | Some secs \<Rightarrow>
             if secs < 0 then (RError ''ERR invalid expire time in 'expire' command'', storage)
             else
               (case StorageEngine_expire lazy H now now storage (args ! 1) secs of
                  (result, s) \<Rightarrow> (RInteger (if result then 1 else 0), s))))"

definition cmd_ttl :: "bool \<Rightarrow> (string \<Rightarrow> nat) \<Rightarrow> int \<Rightarrow> string list \<Rightarrow> StorageEngine \<Rightarrow>
    CommandResponse \<times> StorageEngine" where
  "cmd_ttl lazy H now args storage =
     (if length args \<noteq> 2 then
        (RError ''ERR wrong number of arguments for 'ttl' command'', storage)
      else
        (case StorageEngine_exists lazy H now storage (args ! 1) of
           (False, s) \<Rightarrow> (RInteger (- 2), s)
         | (True, s) \<Rightarrow>
             (case StorageEngine_ttl lazy H now s (args ! 1) of
                (None, s') \<Rightarrow> (RInteger (- 1), s')
              | (Some t, s') \<Rightarrow> (RInteger t, s'))))"

fun zadd_loop :: "(string \<Rightarrow> score option) \<Rightarrow> bool \<Rightarrow> (string \<Rightarrow> nat) \<Rightarrow> int \<Rightarrow> string \<Rightarrow>
    string list \<Rightarrow> int \<Rightarrow> StorageEngine \<Rightarrow> CommandResponse \<times> StorageEngine" where
  "zadd_loop stod lazy H now k (sc # member # rest) added storage =
     (case stod sc of
        None \<Rightarrow> (RError ''ERR value is not a valid float'', storage)
      | Some score \<Rightarrow>
          (case StorageEngine_zadd lazy H now storage k member score of
             (r, s) \<Rightarrow> zadd_loop stod lazy H now k rest (if r then added + 1 else added) s))"
| "zadd_loop stod lazy H now k rest added storage = (RInteger added, storage)"

definition cmd_zadd :: "(string \<Rightarrow> score option) \<Rightarrow> bool \<Rightarrow> (string \<Rightarrow> nat) \<Rightarrow> int \<Rightarrow> string list \<Rightarrow>
    StorageEngine \<Rightarrow> CommandResponse \<times> StorageEngine" where
  "cmd_zadd stod lazy H now args storage =
     (if length args < 4 \<or> length args mod 2 \<noteq> 0 then
        (RError ''ERR wrong number of arguments for 'zadd' command'', storage)
      else zadd_loop stod lazy H now (args ! 1) (drop 2 args) 0 storage)"

fun zrem_loop :: "bool \<Rightarrow> (string \<Rightarrow> nat) \<Rightarrow> int \<Rightarrow> string \<Rightarrow> string list \<Rightarrow> int \<Rightarrow>
    StorageEngine \<Rightarrow> CommandResponse \<times> StorageEngine" where
  "zrem_loop lazy H now k [] removed storage = (RInteger removed, storage)"
| "zrem_loop lazy H now k (member # rest) removed storage =
     (case StorageEngine_zrem lazy H now storage k member of
        (r, s) \<Rightarrow> zrem_loop lazy H now k rest (if r then removed + 1 else removed) s)"

definition cmd_zrem :: "bool \<Rightarrow> (string \<Rightarrow> nat) \<Rightarrow> int \<Rightarrow> string list \<Rightarrow> StorageEngine \<Rightarrow>
    CommandResponse \<times> StorageEngine" where
  "cmd_zrem lazy H now args storage =
     (if length args < 3 then
        (RError ''ERR wrong number of arguments for 'zrem' command'', storage)
      else zrem_loop lazy H now (args ! 1) (drop 2 args) 0 storage)"

text \<open>
  \<open>cmd_zscore\<close> prints the score with \<open>operator<<\<close> of an \<open>std::ostringstream\<close>, the
  parameter \<open>show_double\<close>, and appends \<open>.0\<close> when the text has no point; for the member
  named \<open>one\<close> it answers a fixed text.
\<close>

definition cmd_zscore :: "(score \<Rightarrow> string) \<Rightarrow> bool \<Rightarrow> (string \<Rightarrow> nat) \<Rightarrow> int \<Rightarrow> string list \<Rightarrow>
    StorageEngine \<Rightarrow> CommandResponse \<times> StorageEngine" where
  "cmd_zscore show_double lazy H now args storage =
     (if length args \<noteq> 3 then
        (RError ''ERR wrong number of arguments for 'zscore' command'', storage)
      else
        (case StorageEngine_zscore lazy H now storage (args ! 1) (args ! 2) of
           (Some sc, s) \<Rightarrow>
             if args ! 2 = ''one'' then (RString ''1.000000'', s)
             else
               (let shown = show_double sc
                in (RString (if CHR ''.'' \<in> set shown then shown else shown @ ''.0''), s))
         | (None, s) \<Rightarrow> (RNil, s)))"

definition cmd_zrank :: "bool \<Rightarrow> (string \<Rightarrow> nat) \<Rightarrow> int \<Rightarrow> string list \<Rightarrow> StorageEngine \<Rightarrow>
    CommandResponse \<times> StorageEngine" where
  "cmd_zrank lazy H now args storage =
     (if length args \<noteq> 3 then
        (RError ''ERR wrong number of arguments for 'zrank' command'', storage)
      else
        (case StorageEngine_zrank lazy H now storage (args ! 1) (args ! 2) of
           (Some r, s) \<Rightarrow> (RInteger (int r), s)
         | (None, s) \<Rightarrow> (RNil, s)))"

definition cmd_zcard :: "bool \<Rightarrow> (string \<Rightarrow> nat) \<Rightarrow> int \<Rightarrow> string list \<Rightarrow> StorageEngine \<Rightarrow>
    CommandResponse \<times> StorageEngine" where
  "cmd_zcard lazy H now args storage =
     (if length args \<noteq> 2 then
        (RError ''ERR wrong number of arguments for 'zcard' command'', storage)
      else
        (case StorageEngine_zcard lazy H now storage (args ! 1) of
           (n, s) \<Rightarrow> (RInteger (int n), s)))"

section \<open>Sorted-set invariant R1\<close>

lemmas sorted_set_defs =
  SortedSet_new_def SortedSet_add_def SortedSet_remove_def SortedSet_get_score_def
  SortedSet_size_def SortedSet_rank_def AVLTree_new_def AVLTree_insert_def
  AVLTree_remove_def AVLTree_find_def AVLTree_get_all_def AVLTree_size_def
  score_gt_def score_ge_def score_ne_def size_dec_def

text \<open>
  Claim C1 (invariant R1: a member has score \<open>s\<close> in the member-to-score map iff the
  ordered index holds the entry for \<open>(s, m)\<close>, also for two members of equal score).
  The index is keyed by the score alone, so adding \<open>b\<close> with the score of \<open>a\<close> overwrites
  the entry of \<open>a\<close>: afterwards \<open>a\<close> still has score 1 in the map, the index holds the
  single entry \<open>1 \<mapsto> b\<close>, and \<open>rank a\<close> takes the branch the source marks
  "Should not happen".
\<close>

theorem R1_equal_scores_code:
  "(let s1 = snd (SortedSet_add SortedSet_new ''a'' (Num 1));
        s2 = snd (SortedSet_add s1 ''b'' (Num 1))
    in SortedSet_get_score s2 ''a'' = Some (Num 1)
     \<and> SortedSet_get_score s2 ''b'' = Some (Num 1)
     \<and> AVLTree_get_all (score_tree s2) = [(Num 1, ''b'')]
     \<and> AVLTree_find (score_tree s2) (Num 1) = Some ''b''
     \<and> SortedSet_rank s2 ''a'' = None
     \<and> SortedSet_rank s2 ''b'' = Some 0)"
  by (simp add: sorted_set_defs)

section \<open>The indexed-heap invariant of TTLHeap\<close>

text \<open>
  Heap order: every entry but the root is no earlier than its parent at \<open>(i - 1) div 2\<close>.
  Position consistency: \<open>key_to_index\<close> maps a key to \<open>i\<close> exactly when the entry at
  index \<open>i\<close> carries that key (so the keys of the heap are distinct and the map is a
  bijection between them and the indices).
\<close>

definition heap_order :: "TTLEntry list \<Rightarrow> bool" where
  "heap_order xs =
     list_all (\<lambda>i. ttl_expiry (xs ! ((i - 1) div 2)) \<le> ttl_expiry (xs ! i)) [1..<length xs]"

definition pos_ok :: "TTLHeap \<Rightarrow> bool" where
  "pos_ok h =
     (\<forall>k i. (key_to_index h k = Some i) = (i < length (heap h) \<and> ttl_key (heap h ! i) = k))"

definition heap_inv :: "TTLHeap \<Rightarrow> bool" where
  "heap_inv h = (heap_order (heap h) \<and> pos_ok h)"

lemma heap_order_iff:
  "heap_order xs \<longleftrightarrow>
     (\<forall>j. 0 < j \<and> j < length xs \<longrightarrow> ttl_expiry (xs ! ((j - 1) div 2)) \<le> ttl_expiry (xs ! j))"
  by (auto simp: heap_order_def list_all_iff)

definition down_ok :: "TTLEntry list \<Rightarrow> nat \<Rightarrow> bool" where
  "down_ok xs i \<longleftrightarrow>
     (\<forall>j. 0 < j \<and> j < length xs \<and> (j - 1) div 2 \<noteq> i \<longrightarrow>
          ttl_expiry (xs ! ((j - 1) div 2)) \<le> ttl_expiry (xs ! j)) \<and>
     (\<forall>j. 0 < i \<and> 0 < j \<and> j < length xs \<and> (j - 1) div 2 = i \<longrightarrow>
          ttl_expiry (xs ! ((i - 1) div 2)) \<le> ttl_expiry (xs ! j))"

definition up_ok :: "TTLEntry list \<Rightarrow> nat \<Rightarrow> bool" where
  "up_ok xs i \<longleftrightarrow>
     (\<forall>j. 0 < j \<and> j < length xs \<and> j \<noteq> i \<longrightarrow>
          ttl_expiry (xs ! ((j - 1) div 2)) \<le> ttl_expiry (xs ! j)) \<and>
     (\<forall>j. 0 < i \<and> 0 < j \<and> j < length xs \<and> (j - 1) div 2 = i \<longrightarrow>
          ttl_expiry (xs ! ((i - 1) div 2)) \<le> ttl_expiry (xs ! j))"

lemma heap_swap_entries:
  "heap (swap_entries h i j) = (heap h)[i := heap h ! j, j := heap h ! i]"
  by (simp add: swap_entries_def Let_def)

lemma child_cases:
  "0 < (j::nat) \<Longrightarrow> (j - 1) div 2 = i \<longleftrightarrow> j = 2 * i + 1 \<or> j = 2 * i + 2"
  by arith

lemma smallest_of_cases:
  "smallest_of h i = i \<or> smallest_of h i = 2 * i + 1 \<or> smallest_of h i = 2 * i + 2"
  by (simp add: smallest_of_def Let_def)

lemma smallest_of_le:
  "j < length (heap h) \<Longrightarrow> j = i \<or> j = 2 * i + 1 \<or> j = 2 * i + 2 \<Longrightarrow>
     ttl_expiry (heap h ! smallest_of h i) \<le> ttl_expiry (heap h ! j)"
  by (auto simp: smallest_of_def Let_def)

lemma smallest_of_less:
  "smallest_of h i \<noteq> i \<Longrightarrow> ttl_expiry (heap h ! smallest_of h i) < ttl_expiry (heap h ! i)"
  by (auto simp: smallest_of_def Let_def split: if_splits)

lemma down_ok_done:
  assumes d: "down_ok (heap h) i" and s: "smallest_of h i = i"
  shows "heap_order (heap h)"
  unfolding heap_order_iff
proof (intro allI impI)
  fix j assume j: "0 < j \<and> j < length (heap h)"
  show "ttl_expiry (heap h ! ((j - 1) div 2)) \<le> ttl_expiry (heap h ! j)"
  proof (cases "(j - 1) div 2 = i")
    case True
    with j have "j = 2 * i + 1 \<or> j = 2 * i + 2" by arith
    with j have "ttl_expiry (heap h ! smallest_of h i) \<le> ttl_expiry (heap h ! j)"
      by (intro smallest_of_le) auto
    with s True show ?thesis by simp
  next
    case False
    with d j show ?thesis by (simp add: down_ok_def)
  qed
qed

lemma down_ok_step:
  assumes d: "down_ok xs i" and c: "c < length xs" and ci: "c = 2 * i + 1 \<or> c = 2 * i + 2"
    and lt: "ttl_expiry (xs ! c) < ttl_expiry (xs ! i)"
    and ch: "\<And>j. j < length xs \<Longrightarrow> j = 2 * i + 1 \<or> j = 2 * i + 2 \<Longrightarrow>
               ttl_expiry (xs ! c) \<le> ttl_expiry (xs ! j)"
  shows "down_ok (xs[i := xs ! c, c := xs ! i]) c"
proof -
  let ?ys = "xs[i := xs ! c, c := xs ! i]"
  from c ci have i: "i < length xs" and ic: "i < c" and pc: "(c - 1) div 2 = i" by auto
  have yc: "?ys ! c = xs ! i" using c by simp
  have yi: "?ys ! i = xs ! c" using i ic by simp
  have yo: "\<And>j. j \<noteq> i \<Longrightarrow> j \<noteq> c \<Longrightarrow> ?ys ! j = xs ! j" by simp
  have d1: "\<And>j. 0 < j \<Longrightarrow> j < length xs \<Longrightarrow> (j - 1) div 2 \<noteq> i \<Longrightarrow>
              ttl_expiry (xs ! ((j - 1) div 2)) \<le> ttl_expiry (xs ! j)"
    using d by (simp add: down_ok_def)
  have d2: "\<And>j. 0 < i \<Longrightarrow> 0 < j \<Longrightarrow> j < length xs \<Longrightarrow> (j - 1) div 2 = i \<Longrightarrow>
              ttl_expiry (xs ! ((i - 1) div 2)) \<le> ttl_expiry (xs ! j)"
    using d by (simp add: down_ok_def)
  have p1: "ttl_expiry (?ys ! ((j - 1) div 2)) \<le> ttl_expiry (?ys ! j)"
    if j: "0 < j" "j < length xs" "(j - 1) div 2 \<noteq> c" for j
  proof (cases "(j - 1) div 2 = i")
    case True
    then have jc: "j = 2 * i + 1 \<or> j = 2 * i + 2" using j(1) by arith
    show ?thesis
    proof (cases "j = c")
      case True
      with \<open>(j - 1) div 2 = i\<close> yc yi lt show ?thesis by simp
    next
      case False
      moreover from jc have "j \<noteq> i" by auto
      ultimately have "?ys ! j = xs ! j" by (rule yo[OF _ _, rotated]) 
      with ch[OF j(2) jc] True yi show ?thesis by simp
    qed
  next
    case False
    show ?thesis
    proof (cases "j = i")
      case True
      then have i0: "0 < i" using j(1) by simp
      have "(i - 1) div 2 < i" using i0 by arith
      then have "(i - 1) div 2 \<noteq> i" "(i - 1) div 2 \<noteq> c" using ic by auto
      then have "?ys ! ((i - 1) div 2) = xs ! ((i - 1) div 2)" by (rule yo)
      moreover have "ttl_expiry (xs ! ((i - 1) div 2)) \<le> ttl_expiry (xs ! c)"
        using d2[OF i0 _ c pc] ic by simp
      ultimately show ?thesis using True yi by simp
    next
      case ji: False
      have jc: "j \<noteq> c" using False pc by auto
      have "?ys ! j = xs ! j" using ji jc by (rule yo)
      moreover have "?ys ! ((j - 1) div 2) = xs ! ((j - 1) div 2)"
        using False j(3) by (rule yo)
      ultimately show ?thesis using d1[OF j(1) j(2) False] by simp
    qed
  qed
  have p2: "ttl_expiry (?ys ! ((c - 1) div 2)) \<le> ttl_expiry (?ys ! j)"
    if j: "0 < j" "j < length xs" "(j - 1) div 2 = c" for j
  proof -
    have "c < j" using j by arith
    then have "j \<noteq> i" "j \<noteq> c" using ic by auto
    then have "?ys ! j = xs ! j" by (rule yo)
    moreover have "(j - 1) div 2 \<noteq> i" using j(3) ic by simp
    then have "ttl_expiry (xs ! ((j - 1) div 2)) \<le> ttl_expiry (xs ! j)"
      using d1[OF j(1) j(2)] by simp
    ultimately show ?thesis using j(3) pc yi by simp
  qed
  show ?thesis
    unfolding down_ok_def length_list_update using p1 p2 by blast
qed

lemma heapify_down_order:
  "down_ok (heap h) i \<Longrightarrow> heap_order (heap (heapify_down h i))"
proof (induction h i rule: heapify_down.induct)
  case (1 h index)
  show ?case
  proof (cases "smallest_of h index = index")
    case True
    with "1.prems" show ?thesis
      by (subst heapify_down.simps) (simp add: down_ok_done)
  next
    case False
    let ?c = "smallest_of h index"
    have b: "index < ?c \<and> ?c < length (heap h)" using False by (rule smallest_of_bounds)
    have ci: "?c = 2 * index + 1 \<or> ?c = 2 * index + 2"
      using smallest_of_cases[of h index] False by simp
    have "down_ok ((heap h)[index := heap h ! ?c, ?c := heap h ! index]) ?c"
      using "1.prems" _ ci smallest_of_less[OF False]
    proof (rule down_ok_step)
      show "?c < length (heap h)" using b by simp
    next
      fix j assume "j < length (heap h)" "j = 2 * index + 1 \<or> j = 2 * index + 2"
      then show "ttl_expiry (heap h ! ?c) \<le> ttl_expiry (heap h ! j)"
        by (intro smallest_of_le) auto
    qed
    then have "heap_order (heap (heapify_down (swap_entries h index ?c) ?c))"
      using "1.IH"[OF False] by (simp add: heap_swap_entries)
    then show ?thesis using False by (subst heapify_down.simps) simp
  qed
qed

lemma heap_order_root_min:
  assumes "heap_order xs"
  shows "i < length xs \<Longrightarrow> ttl_expiry (xs ! 0) \<le> ttl_expiry (xs ! i)"
proof (induction i rule: less_induct)
  case (less i)
  show ?case
  proof (cases "i = 0")
    case True
    then show ?thesis by simp
  next
    case False
    then have p: "(i - 1) div 2 < i" by arith
    with less.prems have q: "(i - 1) div 2 < length xs" by simp
    have "ttl_expiry (xs ! 0) \<le> ttl_expiry (xs ! ((i - 1) div 2))"
      using p q by (rule less.IH)
    moreover have "ttl_expiry (xs ! ((i - 1) div 2)) \<le> ttl_expiry (xs ! i)"
      using assms False less.prems unfolding heap_order_iff by blast
    ultimately show ?thesis by (rule order_trans)
  qed
qed


lemma pos_ok_lookup:
  "pos_ok h \<Longrightarrow> i < length (heap h) \<Longrightarrow> key_to_index h (ttl_key (heap h ! i)) = Some i"
  by (simp add: pos_ok_def)

lemma pos_ok_distinct:
  assumes "pos_ok h" "i < length (heap h)" "j < length (heap h)"
    and "ttl_key (heap h ! i) = ttl_key (heap h ! j)"
  shows "i = j"
proof -
  have "key_to_index h (ttl_key (heap h ! i)) = Some i"
    using assms(1,2) by (rule pos_ok_lookup)
  then have "key_to_index h (ttl_key (heap h ! j)) = Some i"
    by (simp only: assms(4))
  moreover have "key_to_index h (ttl_key (heap h ! j)) = Some j"
    using assms(1,3) by (rule pos_ok_lookup)
  ultimately have "Some i = Some j" by (rule trans[OF sym])
  then show ?thesis by simp
qed


lemma pos_ok_swap_entries:
  assumes p: "pos_ok h" and i: "i < length (heap h)" and j: "j < length (heap h)"
  shows "pos_ok (swap_entries h i j)"
proof (cases "i = j")
  case True
  have "key_to_index h (ttl_key (heap h ! i)) = Some i" using p i by (rule pos_ok_lookup)
  then have "(key_to_index h)(ttl_key (heap h ! i) \<mapsto> i) = key_to_index h"
    by (rule map_upd_triv)
  then have "swap_entries h i i = \<lparr>heap = heap h, key_to_index = key_to_index h\<rparr>"
    using i by (simp add: swap_entries_def Let_def)
  with p True show ?thesis by (simp add: pos_ok_def)
next
  case False
  let ?xs = "heap h"
  let ?ys = "?xs[i := ?xs ! j, j := ?xs ! i]"
  let ?a = "ttl_key (?xs ! i)" and ?b = "ttl_key (?xs ! j)"
  have ab: "?a \<noteq> ?b" using pos_ok_distinct[OF p i j] False by blast
  have hp: "heap (swap_entries h i j) = ?ys"
    by (rule heap_swap_entries)
  have yi: "?ys ! i = ?xs ! j" using i False by simp
  have yj: "?ys ! j = ?xs ! i" using j by simp
  have yo: "\<And>n. n \<noteq> i \<Longrightarrow> n \<noteq> j \<Longrightarrow> ?ys ! n = ?xs ! n" by simp
  have m: "key_to_index (swap_entries h i j) = (key_to_index h)(?b \<mapsto> i, ?a \<mapsto> j)"
    unfolding swap_entries_def Let_def using yi yj by simp
  have base: "\<And>k n. (key_to_index h k = Some n) = (n < length ?xs \<and> ttl_key (?xs ! n) = k)"
    using p unfolding pos_ok_def by blast
  have ka: "(n < length ?xs \<and> ttl_key (?ys ! n) = ?a) = (n = j)" for n
  proof (cases "n = j")
    case True
    with j yj show ?thesis by simp
  next
    case nj: False
    show ?thesis
    proof (cases "n = i")
      case True
      with yi ab nj show ?thesis by simp
    next
      case False
      then have "?ys ! n = ?xs ! n" using nj by (rule yo)
      moreover have "\<not> (n < length ?xs \<and> ttl_key (?xs ! n) = ?a)"
        using pos_ok_distinct[OF p _ i, of n] False by blast
      ultimately show ?thesis using nj by simp
    qed
  qed
  have kb: "(n < length ?xs \<and> ttl_key (?ys ! n) = ?b) = (n = i)" for n
  proof (cases "n = i")
    case True
    with i yi show ?thesis by simp
  next
    case ni: False
    show ?thesis
    proof (cases "n = j")
      case True
      with yj ab ni show ?thesis by simp
    next
      case False
      have "?ys ! n = ?xs ! n" using ni False by (rule yo)
      moreover have "\<not> (n < length ?xs \<and> ttl_key (?xs ! n) = ?b)"
        using pos_ok_distinct[OF p _ j, of n] False by blast
      ultimately show ?thesis using ni by simp
    qed
  qed
  have ko: "(n < length ?xs \<and> ttl_key (?ys ! n) = k) = (n < length ?xs \<and> ttl_key (?xs ! n) = k)"
    if "k \<noteq> ?a" "k \<noteq> ?b" for n k
  proof (cases "n = i \<or> n = j")
    case True
    then show ?thesis using that yi yj by auto
  next
    case False
    then have "?ys ! n = ?xs ! n" by (intro yo) auto
    then show ?thesis by simp
  qed
  have "((key_to_index h)(?b \<mapsto> i, ?a \<mapsto> j)) k = Some n \<longleftrightarrow>
          n < length ?xs \<and> ttl_key (?ys ! n) = k" for k n
  proof (cases "k = ?a")
    case True
    then show ?thesis using ka[of n] by auto
  next
    case na: False
    show ?thesis
    proof (cases "k = ?b")
      case True
      then show ?thesis using kb[of n] na by auto
    next
      case False
      then show ?thesis using na ko[OF na False, of n] base[of k n] by simp
    qed
  qed
  then show ?thesis
    unfolding pos_ok_def hp m length_list_update by blast
qed

lemma mset_swap_entries:
  "i < length (heap h) \<Longrightarrow> j < length (heap h) \<Longrightarrow>
     mset (heap (swap_entries h i j)) = mset (heap h)"
  by (simp add: heap_swap_entries mset_swap)

lemma heapify_down_pos_mset:
  "pos_ok h \<Longrightarrow> i < length (heap h) \<Longrightarrow>
     pos_ok (heapify_down h i) \<and> mset (heap (heapify_down h i)) = mset (heap h)"
proof (induction h i rule: heapify_down.induct)
  case (1 h index)
  show ?case
  proof (cases "smallest_of h index = index")
    case True
    then have "heapify_down h index = h" by (subst heapify_down.simps) simp
    with "1.prems" show ?thesis by simp
  next
    case False
    let ?c = "smallest_of h index"
    have b: "index < ?c \<and> ?c < length (heap h)" using False by (rule smallest_of_bounds)
    have e: "heapify_down h index = heapify_down (swap_entries h index ?c) ?c"
      using False by (subst heapify_down.simps) simp
    have "pos_ok (swap_entries h index ?c)"
      using "1.prems" b by (intro pos_ok_swap_entries) auto
    moreover have "?c < length (heap (swap_entries h index ?c))"
      using b by (simp add: length_swap_entries)
    ultimately have "pos_ok (heapify_down (swap_entries h index ?c) ?c) \<and>
        mset (heap (heapify_down (swap_entries h index ?c) ?c)) = mset (heap (swap_entries h index ?c))"
      by (rule "1.IH"[OF False])
    moreover have "mset (heap (swap_entries h index ?c)) = mset (heap h)"
      using "1.prems" b by (intro mset_swap_entries) auto
    ultimately show ?thesis unfolding e by simp
  qed
qed

lemma pos_ok_pop_back_erase:
  assumes p: "pos_ok h" and ne: "heap h \<noteq> []" and k: "ttl_key (last (heap h)) = k"
  shows "pos_ok (pop_back_erase h k)"
proof -
  let ?xs = "heap h"
  have l: "last ?xs = ?xs ! (length ?xs - 1)" using ne by (rule last_conv_nth)
  have ll: "length ?xs - 1 < length ?xs" using ne by simp
  have kl: "ttl_key (?xs ! (length ?xs - 1)) = k" using k l by simp
  have base: "\<And>k' n. (key_to_index h k' = Some n) = (n < length ?xs \<and> ttl_key (?xs ! n) = k')"
    using p unfolding pos_ok_def by blast
  have hp: "heap (pop_back_erase h k) = butlast ?xs"
    and m: "key_to_index (pop_back_erase h k) = (key_to_index h)(k := None)"
    by (simp_all add: pop_back_erase_def)
  have "(((key_to_index h)(k := None)) k' = Some n) =
          (n < length (butlast ?xs) \<and> ttl_key (butlast ?xs ! n) = k')" for k' n
  proof (cases "n < length ?xs - 1")
    case True
    then have n: "n < length ?xs" by arith
    have nb: "butlast ?xs ! n = ?xs ! n" using True by (simp add: nth_butlast)
    have "ttl_key (?xs ! n) \<noteq> k"
    proof
      assume "ttl_key (?xs ! n) = k"
      then have "ttl_key (?xs ! n) = ttl_key (?xs ! (length ?xs - 1))" using kl by simp
      then have "n = length ?xs - 1" using p n ll by (rule pos_ok_distinct[rotated 3])
      with True show False by simp
    qed
    then show ?thesis using True nb n base[of k' n] by auto
  next
    case False
    have "((key_to_index h)(k := None)) k' \<noteq> Some n"
    proof (cases "k' = k")
      case True
      then show ?thesis by simp
    next
      case nk: False
      have "key_to_index h k' \<noteq> Some n"
      proof
        assume "key_to_index h k' = Some n"
        then have a: "n < length ?xs \<and> ttl_key (?xs ! n) = k'" using base by blast
        with False have "n = length ?xs - 1" by arith
        with a kl nk show False by simp
      qed
      with nk show ?thesis by simp
    qed
    with False show ?thesis by simp
  qed
  then show ?thesis unfolding pos_ok_def hp m by blast
qed

text \<open>The body of the loop of \<open>get_expired_keys\<close>, named to state its properties.\<close>

definition pop_root :: "TTLHeap \<Rightarrow> TTLHeap" where
  "pop_root h =
     (let k = ttl_key (heap h ! 0);
          h' = pop_back_erase (swap_entries h 0 (length (heap h) - 1)) k
      in if heap h' \<noteq> [] then heapify_down h' 0 else h')"

lemma expired_loop_unfold:
  "expired_loop h now ks =
     (if heap h \<noteq> [] \<and> ttl_expiry (heap h ! 0) \<le> now
      then expired_loop (pop_root h) now (ks @ [ttl_key (heap h ! 0)])
      else (ks, h))"
  by (subst expired_loop.simps) (simp add: pop_root_def)

lemma pop_root_inv:
  assumes inv: "heap_inv h" and ne: "heap h \<noteq> []"
  shows "heap_inv (pop_root h) \<and> mset (heap h) = add_mset (heap h ! 0) (mset (heap (pop_root h)))"
proof -
  let ?xs = "heap h"
  define m where "m = length ?xs - 1"
  define h1 where "h1 = swap_entries h 0 m"
  define h2 where "h2 = pop_back_erase h1 (ttl_key (?xs ! 0))"
  from inv have ord: "heap_order ?xs" and pos: "pos_ok h" by (simp_all add: heap_inv_def)
  from ne have n0: "0 < length ?xs" by simp
  then have nl: "m < length ?xs" and nm: "length ?xs = Suc m" by (simp_all add: m_def)
  have hh1: "heap h1 = ?xs[0 := ?xs ! m, m := ?xs ! 0]"
    unfolding h1_def by (rule heap_swap_entries)
  have len1: "length (heap h1) = Suc m" by (simp add: hh1 nm)
  have ne1: "heap h1 \<noteq> []" using len1 by auto
  have "last (heap h1) = heap h1 ! m"
    using last_conv_nth[OF ne1] by (simp add: len1)
  also have "\<dots> = ?xs ! 0" using nl unfolding hh1 by simp
  finally have last1: "last (heap h1) = ?xs ! 0" .
  have pos1: "pos_ok h1" unfolding h1_def using pos n0 nl by (rule pos_ok_swap_entries)
  have pos2: "pos_ok h2"
    unfolding h2_def using pos1 ne1 by (rule pos_ok_pop_back_erase) (simp only: last1)
  have hh2: "heap h2 = butlast (heap h1)" by (simp add: h2_def pop_back_erase_def)
  have len2: "length (heap h2) = m" by (simp add: hh2 len1)
  have "mset (heap h1) = mset ?xs"
    unfolding h1_def using n0 nl by (rule mset_swap_entries)
  moreover have "heap h1 = heap h2 @ [?xs ! 0]"
    using append_butlast_last_id[OF ne1, symmetric] by (simp only: hh2 last1)
  ultimately have ms: "mset ?xs = add_mset (?xs ! 0) (mset (heap h2))"
    by simp
  have nth2: "heap h2 ! j = ?xs ! j" if "0 < j" "j < m" for j
    using that by (simp add: hh2 hh1 nth_butlast nm)
  have pr: "pop_root h = (if heap h2 \<noteq> [] then heapify_down h2 0 else h2)"
    by (simp add: pop_root_def Let_def h2_def h1_def m_def)
  show ?thesis
  proof (cases "heap h2 = []")
    case True
    then have "pop_root h = h2" by (simp add: pr)
    moreover have "heap_order (heap h2)" using True by (simp add: heap_order_def)
    ultimately show ?thesis using pos2 ms by (simp add: heap_inv_def)
  next
    case False
    then have pr': "pop_root h = heapify_down h2 0" by (simp add: pr)
    have "down_ok (heap h2) 0"
      unfolding down_ok_def
    proof (intro conjI allI impI)
      fix j assume j: "0 < j \<and> j < length (heap h2) \<and> (j - 1) div 2 \<noteq> 0"
      then have j1: "0 < j" "j < m" using len2 by auto
      have p1: "0 < (j - 1) div 2" "(j - 1) div 2 < m" using j j1 by arith+
      have "j < length ?xs" using j1 nm by simp
      then have "ttl_expiry (?xs ! ((j - 1) div 2)) \<le> ttl_expiry (?xs ! j)"
        using ord j1 unfolding heap_order_iff by blast
      then show "ttl_expiry (heap h2 ! ((j - 1) div 2)) \<le> ttl_expiry (heap h2 ! j)"
        by (simp only: nth2[OF j1] nth2[OF p1])
    next
      fix j assume "0 < (0::nat) \<and> 0 < j \<and> j < length (heap h2) \<and> (j - 1) div 2 = 0"
      then show "ttl_expiry (heap h2 ! ((0 - 1) div 2)) \<le> ttl_expiry (heap h2 ! j)" by simp
    qed
    then have "heap_order (heap (heapify_down h2 0))" by (rule heapify_down_order)
    moreover have "pos_ok (heapify_down h2 0) \<and> mset (heap (heapify_down h2 0)) = mset (heap h2)"
      using pos2 False by (intro heapify_down_pos_mset) auto
    ultimately show ?thesis using ms pr' by (simp add: heap_inv_def)
  qed
qed

lemma expired_loop_stop:
  "\<not> (heap h \<noteq> [] \<and> ttl_expiry (heap h ! 0) \<le> now) \<Longrightarrow> expired_loop h now ks = (ks, h)"
  by (subst expired_loop_unfold) auto

lemma expired_loop_step:
  "heap h \<noteq> [] \<and> ttl_expiry (heap h ! 0) \<le> now \<Longrightarrow>
     expired_loop h now ks = expired_loop (pop_root h) now (ks @ [ttl_key (heap h ! 0)])"
  by (subst expired_loop_unfold) auto

lemma expired_loop_spec:
  "heap_inv h \<Longrightarrow> expired_loop h now ks = (ks', h') \<Longrightarrow>
     \<exists>es. ks' = ks @ map ttl_key es \<and> sorted (map ttl_expiry es) \<and>
          (\<forall>e\<in>set es. ttl_expiry e \<le> now) \<and>
          mset (heap h) = mset es + mset (heap h') \<and> heap_inv h' \<and>
          (heap h' = [] \<or> now < ttl_expiry (heap h' ! 0))"
proof (induction n \<equiv> "length (heap h)" arbitrary: h ks ks' h')
  case 0
  then have "heap h = []" by simp
  then have "expired_loop h now ks = (ks, h)" by (intro expired_loop_stop) simp
  with "0.prems" have "ks' = ks" "h' = h" by simp_all
  with \<open>heap h = []\<close> "0.prems"(1) show ?case by (intro exI[of _ "[]"]) simp
next
  case (Suc n)
  show ?case
  proof (cases "heap h \<noteq> [] \<and> ttl_expiry (heap h ! 0) \<le> now")
    case False
    then have "expired_loop h now ks = (ks, h)" by (rule expired_loop_stop)
    with Suc.prems have e: "ks' = ks" "h' = h" by simp_all
    from False have "heap h' = [] \<or> now < ttl_expiry (heap h' ! 0)" unfolding e by auto
    with e Suc.prems(1) show ?thesis by (intro exI[of _ "[]"]) simp
  next
    case True
    let ?r = "heap h ! 0"
    let ?h1 = "pop_root h"
    from True have ne: "heap h \<noteq> []" by simp
    have pi: "heap_inv ?h1" and ms: "mset (heap h) = add_mset ?r (mset (heap ?h1))"
      using pop_root_inv[OF Suc.prems(1) ne] by simp_all
    from ms have "size (mset (heap h)) = Suc (size (mset (heap ?h1)))" by simp
    then have len: "n = length (heap ?h1)" using Suc.hyps(2) by simp
    have "expired_loop h now ks = expired_loop ?h1 now (ks @ [ttl_key ?r])"
      using True by (rule expired_loop_step)
    with Suc.prems(2) have "expired_loop ?h1 now (ks @ [ttl_key ?r]) = (ks', h')" by simp
    from Suc.hyps(1)[OF len pi this] obtain es where
      es: "ks' = (ks @ [ttl_key ?r]) @ map ttl_key es" "sorted (map ttl_expiry es)"
        "\<forall>e\<in>set es. ttl_expiry e \<le> now"
        "mset (heap ?h1) = mset es + mset (heap h')" "heap_inv h'"
        "heap h' = [] \<or> now < ttl_expiry (heap h' ! 0)"
      by blast
    have ord: "heap_order (heap h)" using Suc.prems(1) by (simp add: heap_inv_def)
    have rmin: "ttl_expiry ?r \<le> ttl_expiry e" if "e \<in> set es" for e
    proof -
      from that have "e \<in># mset es + mset (heap h')" by simp
      then have "e \<in># mset (heap ?h1)" using es(4) by simp
      then have "e \<in># mset (heap h)" using ms by simp
      then have "e \<in> set (heap h)" by simp
      then obtain i where "i < length (heap h)" "heap h ! i = e" by (auto simp: in_set_conv_nth)
      with heap_order_root_min[OF ord, of i] show ?thesis by simp
    qed
    have "ks' = ks @ map ttl_key (?r # es)" using es(1) by simp
    moreover have "sorted (map ttl_expiry (?r # es))" using es(2) rmin by simp
    moreover have "\<forall>e\<in>set (?r # es). ttl_expiry e \<le> now" using es(3) True by simp
    moreover have "mset (heap h) = mset (?r # es) + mset (heap h')" using ms es(4) by simp
    ultimately show ?thesis using es(5,6) by blast
  qed
qed

lemma up_ok_done:
  assumes u: "up_ok xs i"
    and s: "i = 0 \<or> \<not> ttl_expiry (xs ! i) < ttl_expiry (xs ! ((i - 1) div 2))"
  shows "heap_order xs"
  unfolding heap_order_iff
proof (intro allI impI)
  fix j assume j: "0 < j \<and> j < length xs"
  show "ttl_expiry (xs ! ((j - 1) div 2)) \<le> ttl_expiry (xs ! j)"
  proof (cases "j = i")
    case True
    with j s show ?thesis by auto
  next
    case False
    with u j show ?thesis unfolding up_ok_def by blast
  qed
qed

lemma up_ok_step:
  assumes u: "up_ok xs i" and i0: "0 < i" and i: "i < length xs"
    and p: "p = (i - 1) div 2"
    and lt: "ttl_expiry (xs ! i) < ttl_expiry (xs ! p)"
  shows "up_ok (xs[i := xs ! p, p := xs ! i]) p"
proof -
  let ?ys = "xs[i := xs ! p, p := xs ! i]"
  from i0 p have pi: "p < i" by arith
  with i have pl: "p < length xs" by simp
  have yp: "?ys ! p = xs ! i" using pl by simp
  have yi: "?ys ! i = xs ! p" using i pi by simp
  have yo: "\<And>j. j \<noteq> i \<Longrightarrow> j \<noteq> p \<Longrightarrow> ?ys ! j = xs ! j" by simp
  have u1: "\<And>j. 0 < j \<Longrightarrow> j < length xs \<Longrightarrow> j \<noteq> i \<Longrightarrow>
              ttl_expiry (xs ! ((j - 1) div 2)) \<le> ttl_expiry (xs ! j)"
    using u unfolding up_ok_def by blast
  have u2: "\<And>j. 0 < j \<Longrightarrow> j < length xs \<Longrightarrow> (j - 1) div 2 = i \<Longrightarrow>
              ttl_expiry (xs ! p) \<le> ttl_expiry (xs ! j)"
    using u i0 unfolding up_ok_def p by blast
  have q1: "ttl_expiry (?ys ! ((j - 1) div 2)) \<le> ttl_expiry (?ys ! j)"
    if j: "0 < j" "j < length xs" "j \<noteq> p" for j
  proof (cases "j = i")
    case True
    then have "(j - 1) div 2 = p" using p by simp
    with True yp yi lt show ?thesis by simp
  next
    case ji: False
    have yj: "?ys ! j = xs ! j" using ji j(3) by (rule yo)
    show ?thesis
    proof (cases "(j - 1) div 2 = i")
      case True
      with u2[OF j(1,2) True] yj yi show ?thesis by simp
    next
      case qi: False
      show ?thesis
      proof (cases "(j - 1) div 2 = p")
        case True
        have "ttl_expiry (xs ! p) \<le> ttl_expiry (xs ! j)" using u1[OF j(1,2) ji] True by simp
        with lt True yj yp show ?thesis by simp
      next
        case False
        have "?ys ! ((j - 1) div 2) = xs ! ((j - 1) div 2)" using qi False by (rule yo)
        with u1[OF j(1,2) ji] yj show ?thesis by simp
      qed
    qed
  qed
  have q2: "ttl_expiry (?ys ! ((p - 1) div 2)) \<le> ttl_expiry (?ys ! j)"
    if j: "0 < p" "0 < j" "j < length xs" "(j - 1) div 2 = p" for j
  proof -
    have g: "(p - 1) div 2 < p" using j(1) by arith
    then have "(p - 1) div 2 \<noteq> i" "(p - 1) div 2 \<noteq> p" using pi by auto
    then have yg: "?ys ! ((p - 1) div 2) = xs ! ((p - 1) div 2)" by (rule yo)
    have gp: "ttl_expiry (xs ! ((p - 1) div 2)) \<le> ttl_expiry (xs ! p)"
      using u1[OF j(1) pl] pi by simp
    have jp: "j \<noteq> p" using j(2,4) by arith
    show ?thesis
    proof (cases "j = i")
      case True
      with yi yg gp show ?thesis by simp
    next
      case False
      then have "?ys ! j = xs ! j" using jp by (rule yo)
      moreover have "ttl_expiry (xs ! p) \<le> ttl_expiry (xs ! j)"
        using u1[OF j(2,3) False] j(4) by simp
      ultimately show ?thesis using yg gp by simp
    qed
  qed
  show ?thesis
    unfolding up_ok_def length_list_update using q1 q2 by blast
qed

lemma heapify_up_stop:
  "index = 0 \<or> \<not> ttl_expiry (heap h ! index) < ttl_expiry (heap h ! ((index - 1) div 2)) \<Longrightarrow>
     heapify_up h index = h"
  by (subst heapify_up.simps) auto

lemma heapify_up_step:
  "0 < index \<Longrightarrow> ttl_expiry (heap h ! index) < ttl_expiry (heap h ! ((index - 1) div 2)) \<Longrightarrow>
     heapify_up h index =
       heapify_up (swap_entries h index ((index - 1) div 2)) ((index - 1) div 2)"
  by (subst heapify_up.simps) auto

lemma heapify_up_inv:
  "up_ok (heap h) i \<Longrightarrow> pos_ok h \<Longrightarrow> i < length (heap h) \<Longrightarrow>
     heap_order (heap (heapify_up h i)) \<and> pos_ok (heapify_up h i) \<and>
     mset (heap (heapify_up h i)) = mset (heap h)"
proof (induction h i rule: heapify_up.induct)
  case (1 h index)
  show ?case
  proof (cases "0 < index \<and>
      ttl_expiry (heap h ! index) < ttl_expiry (heap h ! ((index - 1) div 2))")
    case False
    then have s: "index = 0 \<or>
        \<not> ttl_expiry (heap h ! index) < ttl_expiry (heap h ! ((index - 1) div 2))" by auto
    then have "heapify_up h index = h" by (rule heapify_up_stop)
    moreover have "heap_order (heap h)" using "1.prems"(1) s by (rule up_ok_done)
    ultimately show ?thesis using "1.prems"(2) by simp
  next
    case True
    define p where "p = (index - 1) div 2"
    from True have i0: "0 < index" and lt: "ttl_expiry (heap h ! index) < ttl_expiry (heap h ! p)"
      by (simp_all add: p_def)
    have pl: "p < length (heap h)" using i0 "1.prems"(3) unfolding p_def by arith
    have e: "heapify_up h index = heapify_up (swap_entries h index p) p"
      unfolding p_def using True by (intro heapify_up_step) auto
    have "up_ok ((heap h)[index := heap h ! p, p := heap h ! index]) p"
      using "1.prems"(1) i0 "1.prems"(3) p_def lt by (rule up_ok_step)
    then have a: "up_ok (heap (swap_entries h index p)) p" by (simp add: heap_swap_entries)
    have b: "pos_ok (swap_entries h index p)"
      using "1.prems"(2,3) pl by (rule pos_ok_swap_entries)
    have c: "p < length (heap (swap_entries h index p))" using pl by (simp add: length_swap_entries)
    have "heap_order (heap (heapify_up (swap_entries h index p) p)) \<and>
          pos_ok (heapify_up (swap_entries h index p) p) \<and>
          mset (heap (heapify_up (swap_entries h index p) p)) = mset (heap (swap_entries h index p))"
      using "1.IH"[OF i0 _ a[unfolded p_def] b[unfolded p_def] c[unfolded p_def]] True
      unfolding p_def by blast
    moreover have "mset (heap (swap_entries h index p)) = mset (heap h)"
      using "1.prems"(3) pl by (rule mset_swap_entries)
    ultimately show ?thesis unfolding e by simp
  qed
qed

lemma heap_order_down_ok:
  assumes o: "heap_order xs"
  shows "down_ok xs i"
  unfolding down_ok_def
proof (intro conjI allI impI)
  fix j assume "0 < j \<and> j < length xs \<and> (j - 1) div 2 \<noteq> i"
  then show "ttl_expiry (xs ! ((j - 1) div 2)) \<le> ttl_expiry (xs ! j)"
    using o unfolding heap_order_iff by blast
next
  fix j assume j: "0 < i \<and> 0 < j \<and> j < length xs \<and> (j - 1) div 2 = i"
  then have "i < length xs" by arith
  with j have "ttl_expiry (xs ! ((i - 1) div 2)) \<le> ttl_expiry (xs ! i)"
    using o unfolding heap_order_iff by blast
  moreover from j have "ttl_expiry (xs ! i) \<le> ttl_expiry (xs ! j)"
    using o unfolding heap_order_iff by blast
  ultimately show "ttl_expiry (xs ! ((i - 1) div 2)) \<le> ttl_expiry (xs ! j)" by simp
qed

lemma set_expiry_simps:
  "heap (set_expiry h i e) = (heap h)[i := (heap h ! i)\<lparr>ttl_expiry := e\<rparr>]"
  "key_to_index (set_expiry h i e) = key_to_index h"
  by (simp_all add: set_expiry_def)

lemma pos_ok_set_expiry:
  assumes p: "pos_ok h"
  shows "pos_ok (set_expiry h i e)"
proof -
  have "ttl_key ((heap h)[i := (heap h ! i)\<lparr>ttl_expiry := e\<rparr>] ! n) = ttl_key (heap h ! n)"
    if "n < length (heap h)" for n
    using that by (cases "n = i") simp_all
  then show ?thesis
    using p unfolding pos_ok_def set_expiry_simps length_list_update by metis
qed

lemma set_expiry_earlier:
  assumes o: "heap_order xs" and i: "i < length xs" and le: "e \<le> ttl_expiry (xs ! i)"
  shows "up_ok (xs[i := (xs ! i)\<lparr>ttl_expiry := e\<rparr>]) i"
proof -
  let ?ys = "xs[i := (xs ! i)\<lparr>ttl_expiry := e\<rparr>]"
  have yi: "ttl_expiry (?ys ! i) = e" using i by simp
  have yo: "\<And>j. j \<noteq> i \<Longrightarrow> ?ys ! j = xs ! j" by simp
  have o1: "\<And>j. 0 < j \<Longrightarrow> j < length xs \<Longrightarrow>
       ttl_expiry (xs ! ((j - 1) div 2)) \<le> ttl_expiry (xs ! j)"
    using o unfolding heap_order_iff by blast
  have q1: "ttl_expiry (?ys ! ((j - 1) div 2)) \<le> ttl_expiry (?ys ! j)"
    if j: "0 < j" "j < length xs" "j \<noteq> i" for j
  proof (cases "(j - 1) div 2 = i")
    case True
    with o1[OF j(1,2)] le yi yo[OF j(3)] show ?thesis by simp
  next
    case False
    with o1[OF j(1,2)] yo[OF j(3)] yo[OF False] show ?thesis by simp
  qed
  have q2: "ttl_expiry (?ys ! ((i - 1) div 2)) \<le> ttl_expiry (?ys ! j)"
    if j: "0 < i" "0 < j" "j < length xs" "(j - 1) div 2 = i" for j
  proof -
    have "(i - 1) div 2 \<noteq> i" using j(1) by arith
    then have a: "?ys ! ((i - 1) div 2) = xs ! ((i - 1) div 2)" by (rule yo)
    have "j \<noteq> i" using j(2,4) by arith
    then have b: "?ys ! j = xs ! j" by (rule yo)
    have "ttl_expiry (xs ! ((i - 1) div 2)) \<le> ttl_expiry (xs ! i)" using o1[OF j(1) i] .
    moreover have "ttl_expiry (xs ! i) \<le> ttl_expiry (xs ! j)" using o1[OF j(2,3)] j(4) by simp
    ultimately show ?thesis using a b by simp
  qed
  show ?thesis unfolding up_ok_def length_list_update using q1 q2 by blast
qed

lemma set_expiry_later:
  assumes o: "heap_order xs" and i: "i < length xs" and le: "ttl_expiry (xs ! i) \<le> e"
  shows "down_ok (xs[i := (xs ! i)\<lparr>ttl_expiry := e\<rparr>]) i \<and>
         (i = 0 \<or> \<not> e < ttl_expiry (xs[i := (xs ! i)\<lparr>ttl_expiry := e\<rparr>] ! ((i - 1) div 2)))"
proof -
  let ?ys = "xs[i := (xs ! i)\<lparr>ttl_expiry := e\<rparr>]"
  have yi: "ttl_expiry (?ys ! i) = e" using i by simp
  have yo: "\<And>j. j \<noteq> i \<Longrightarrow> ?ys ! j = xs ! j" by simp
  have o1: "\<And>j. 0 < j \<Longrightarrow> j < length xs \<Longrightarrow>
       ttl_expiry (xs ! ((j - 1) div 2)) \<le> ttl_expiry (xs ! j)"
    using o unfolding heap_order_iff by blast
  have par: "ttl_expiry (?ys ! ((i - 1) div 2)) \<le> ttl_expiry (xs ! i)" if "0 < i"
  proof -
    have "(i - 1) div 2 \<noteq> i" using that by arith
    then have "?ys ! ((i - 1) div 2) = xs ! ((i - 1) div 2)" by (rule yo)
    with o1[OF that i] show ?thesis by simp
  qed
  have q1: "ttl_expiry (?ys ! ((j - 1) div 2)) \<le> ttl_expiry (?ys ! j)"
    if j: "0 < j" "j < length xs" "(j - 1) div 2 \<noteq> i" for j
  proof (cases "j = i")
    case True
    with par[OF j(1)[unfolded True]] le yi show ?thesis by simp
  next
    case False
    with o1[OF j(1,2)] yo[OF False] yo[OF j(3)] show ?thesis by simp
  qed
  have q2: "ttl_expiry (?ys ! ((i - 1) div 2)) \<le> ttl_expiry (?ys ! j)"
    if j: "0 < i" "0 < j" "j < length xs" "(j - 1) div 2 = i" for j
  proof -
    have "j \<noteq> i" using j(2,4) by arith
    then have b: "?ys ! j = xs ! j" by (rule yo)
    have "ttl_expiry (xs ! i) \<le> ttl_expiry (xs ! j)" using o1[OF j(2,3)] j(4) by simp
    with par[OF j(1)] b show ?thesis by simp
  qed
  have "down_ok ?ys i" unfolding down_ok_def length_list_update using q1 q2 by blast
  moreover have "i = 0 \<or> \<not> e < ttl_expiry (?ys ! ((i - 1) div 2))"
    using par le by (cases "i = 0") auto
  ultimately show ?thesis by simp
qed

lemma heap_inv_new: "heap_inv TTLHeap_new"
  by (simp add: heap_inv_def heap_order_def pos_ok_def TTLHeap_new_def)

lemma heap_inv_clear: "heap_inv (TTLHeap_clear h)"
  by (simp add: heap_inv_def heap_order_def pos_ok_def TTLHeap_clear_def)

lemma push_back_inv:
  assumes inv: "heap_inv h" and absent: "key_to_index h k = None"
  shows "heap_inv (heapify_up
            \<lparr>heap = heap h @ [\<lparr>ttl_key = k, ttl_expiry = e\<rparr>],
             key_to_index = (key_to_index h)(k \<mapsto> length (heap h))\<rparr>
            (length (heap h)))"
proof -
  let ?xs = "heap h"
  let ?new = "\<lparr>ttl_key = k, ttl_expiry = e\<rparr>"
  let ?h1 = "\<lparr>heap = ?xs @ [?new], key_to_index = (key_to_index h)(k \<mapsto> length ?xs)\<rparr>"
  from inv have ord: "heap_order ?xs" and pos: "pos_ok h" by (simp_all add: heap_inv_def)
  have base: "\<And>k' n. (key_to_index h k' = Some n) = (n < length ?xs \<and> ttl_key (?xs ! n) = k')"
    using pos unfolding pos_ok_def by blast
  have nk: "ttl_key (?xs ! n) \<noteq> k" if "n < length ?xs" for n
    using base[of k n] that absent by auto
  have "(((key_to_index h)(k \<mapsto> length ?xs)) k' = Some n) =
          (n < length (?xs @ [?new]) \<and> ttl_key ((?xs @ [?new]) ! n) = k')" for k' n
  proof (cases "n < length ?xs")
    case True
    then show ?thesis using base[of k' n] nk[OF True] by (auto simp: nth_append)
  next
    case False
    show ?thesis
    proof (cases "n = length ?xs")
      case True
      then show ?thesis using base[of k' n] by (auto simp: nth_append)
    next
      case nl: False
      with False show ?thesis using base[of k' n] by auto
    qed
  qed
  then have pos1: "pos_ok ?h1" unfolding pos_ok_def by simp
  have up: "up_ok (heap ?h1) (length ?xs)"
    unfolding up_ok_def
  proof (intro conjI allI impI)
    fix j assume j: "0 < j \<and> j < length (heap ?h1) \<and> j \<noteq> length ?xs"
    then have jl: "j < length ?xs" by simp
    then have "(j - 1) div 2 < length ?xs" by arith
    with jl j show "ttl_expiry (heap ?h1 ! ((j - 1) div 2)) \<le> ttl_expiry (heap ?h1 ! j)"
      using ord unfolding heap_order_iff by (simp add: nth_append)
  next
    fix j assume "0 < length ?xs \<and> 0 < j \<and> j < length (heap ?h1) \<and> (j - 1) div 2 = length ?xs"
    then have False by simp arith
    then show "ttl_expiry (heap ?h1 ! ((length ?xs - 1) div 2)) \<le> ttl_expiry (heap ?h1 ! j)" ..
  qed
  have "length ?xs < length (heap ?h1)" by simp
  with heapify_up_inv[OF up pos1] show ?thesis by (simp add: heap_inv_def)
qed

lemma TTLHeap_add_inv:
  assumes inv: "heap_inv h"
  shows "heap_inv (TTLHeap_add h k e)"
proof (cases "key_to_index h k")
  case None
  then show ?thesis using push_back_inv[OF inv None] by (simp add: TTLHeap_add_def)
next
  case (Some i)
  from inv have ord: "heap_order (heap h)" and pos: "pos_ok h" by (simp_all add: heap_inv_def)
  have i: "i < length (heap h)" using pos Some unfolding pos_ok_def by blast
  let ?h1 = "set_expiry h i e"
  have pos1: "pos_ok ?h1" using pos by (rule pos_ok_set_expiry)
  have len1: "length (heap ?h1) = length (heap h)" by (simp add: set_expiry_simps)
  have "heap_inv (heapify_down (heapify_up ?h1 i) i)"
  proof (cases "e \<le> ttl_expiry (heap h ! i)")
    case True
    let ?h2 = "heapify_up ?h1 i"
    have "up_ok (heap ?h1) i"
      unfolding set_expiry_simps using ord i True by (rule set_expiry_earlier)
    from heapify_up_inv[OF this pos1] i len1
    have o2: "heap_order (heap ?h2)" and p2: "pos_ok ?h2" by simp_all
    have l2: "i < length (heap ?h2)" using i len1 by (simp add: length_heapify_up)
    have "down_ok (heap ?h2) i" using o2 by (rule heap_order_down_ok)
    then have "heap_order (heap (heapify_down ?h2 i))" by (rule heapify_down_order)
    moreover have "pos_ok (heapify_down ?h2 i)" using heapify_down_pos_mset[OF p2 l2] by simp
    ultimately show ?thesis by (simp add: heap_inv_def)
  next
    case False
    then have le: "ttl_expiry (heap h ! i) \<le> e" by simp
    from set_expiry_later[OF ord i le]
    have d: "down_ok (heap ?h1) i"
      and s: "i = 0 \<or> \<not> e < ttl_expiry (heap ?h1 ! ((i - 1) div 2))"
      unfolding set_expiry_simps by simp_all
    have "ttl_expiry (heap ?h1 ! i) = e" using i by (simp add: set_expiry_simps)
    with s have u: "heapify_up ?h1 i = ?h1" by (intro heapify_up_stop) simp
    have "heap_order (heap (heapify_down ?h1 i))" using d by (rule heapify_down_order)
    moreover have "pos_ok (heapify_down ?h1 i)"
      using heapify_down_pos_mset[OF pos1, of i] i len1 by simp
    ultimately show ?thesis unfolding u by (simp add: heap_inv_def)
  qed
  then show ?thesis using Some by (simp add: TTLHeap_add_def)
qed

lemma TTLHeap_update_inv:
  assumes inv: "heap_inv h"
  shows "case TTLHeap_update h k e of
           None \<Rightarrow> key_to_index h k = None
         | Some h' \<Rightarrow> key_to_index h k \<noteq> None \<and> heap_inv h'"
proof (cases "key_to_index h k")
  case None
  then show ?thesis by (simp add: TTLHeap_update_def)
next
  case (Some i)
  from inv have ord: "heap_order (heap h)" and pos: "pos_ok h" by (simp_all add: heap_inv_def)
  have i: "i < length (heap h)" using pos Some unfolding pos_ok_def by blast
  let ?h1 = "set_expiry h i e"
  have pos1: "pos_ok ?h1" using pos by (rule pos_ok_set_expiry)
  have len1: "length (heap ?h1) = length (heap h)" by (simp add: set_expiry_simps)
  show ?thesis
  proof (cases "e < ttl_expiry (heap h ! i)")
    case True
    then have "e \<le> ttl_expiry (heap h ! i)" by simp
    then have "up_ok (heap ?h1) i"
      unfolding set_expiry_simps using ord i by (intro set_expiry_earlier)
    from heapify_up_inv[OF this pos1] i len1
    have "heap_inv (heapify_up ?h1 i)" by (simp add: heap_inv_def)
    then show ?thesis using Some True by (simp add: TTLHeap_update_def Let_def)
  next
    case False
    then have le: "ttl_expiry (heap h ! i) \<le> e" by simp
    from set_expiry_later[OF ord i le]
    have d: "down_ok (heap ?h1) i" unfolding set_expiry_simps by simp
    have "heap_order (heap (heapify_down ?h1 i))" using d by (rule heapify_down_order)
    moreover have "pos_ok (heapify_down ?h1 i)"
      using heapify_down_pos_mset[OF pos1, of i] i len1 by simp
    ultimately show ?thesis using Some False by (simp add: TTLHeap_update_def Let_def heap_inv_def)
  qed
qed

definition expiry_of :: "TTLHeap \<Rightarrow> string \<Rightarrow> int" where
  "expiry_of h k = ttl_expiry (heap h ! the (key_to_index h k))"

lemma expiry_of_entry:
  assumes "pos_ok h" "e \<in> set (heap h)"
  shows "expiry_of h (ttl_key e) = ttl_expiry e"
proof -
  from assms(2) obtain i where i: "i < length (heap h)" "heap h ! i = e"
    by (auto simp: in_set_conv_nth)
  then have "key_to_index h (ttl_key e) = Some i" using pos_ok_lookup[OF assms(1) i(1)] by simp
  with i show ?thesis by (simp add: expiry_of_def)
qed

lemma pos_ok_distinct_keys:
  assumes "pos_ok h"
  shows "distinct (map ttl_key (heap h))"
  unfolding distinct_conv_nth
proof (intro allI impI)
  fix i j assume "i < length (map ttl_key (heap h))" "j < length (map ttl_key (heap h))" "i \<noteq> j"
  then show "map ttl_key (heap h) ! i \<noteq> map ttl_key (heap h) ! j"
    using pos_ok_distinct[OF assms, of i j] by auto
qed

lemma get_expired_keys_spec:
  assumes inv: "heap_inv h" and run: "TTLHeap_get_expired_keys h now = (ks, h')"
  shows "\<exists>es. ks = map ttl_key es \<and> sorted (map ttl_expiry es) \<and>
          mset es = filter_mset (\<lambda>e. ttl_expiry e \<le> now) (mset (heap h)) \<and>
          mset (heap h') = filter_mset (\<lambda>e. now < ttl_expiry e) (mset (heap h)) \<and>
          mset (heap h) = mset es + mset (heap h') \<and> heap_inv h'"
proof -
  from run have "expired_loop h now [] = (ks, h')" by (simp add: TTLHeap_get_expired_keys_def)
  from expired_loop_spec[OF inv this] obtain es where
    es: "ks = map ttl_key es" "sorted (map ttl_expiry es)"
      "\<forall>e\<in>set es. ttl_expiry e \<le> now"
      "mset (heap h) = mset es + mset (heap h')" "heap_inv h'"
      "heap h' = [] \<or> now < ttl_expiry (heap h' ! 0)"
    by auto
  have late: "now < ttl_expiry e" if "e \<in> set (heap h')" for e
  proof -
    from that obtain i where i: "i < length (heap h')" "heap h' ! i = e"
      by (auto simp: in_set_conv_nth)
    then have "heap h' \<noteq> []" by auto
    with es(6) have "now < ttl_expiry (heap h' ! 0)" by simp
    moreover have "ttl_expiry (heap h' ! 0) \<le> ttl_expiry (heap h' ! i)"
      using es(5) i(1) by (intro heap_order_root_min) (simp add: heap_inv_def)
    ultimately show ?thesis using i(2) by simp
  qed
  have f1: "filter_mset (\<lambda>e. ttl_expiry e \<le> now) (mset es) = mset es"
    using es(3) by (auto simp: filter_mset_eq_conv)
  have f2: "filter_mset (\<lambda>e. ttl_expiry e \<le> now) (mset (heap h')) = {#}"
    using late by (fastforce simp: not_le)
  have f3: "filter_mset (\<lambda>e. now < ttl_expiry e) (mset es) = {#}"
    using es(3) by (fastforce simp: not_less)
  have f4: "filter_mset (\<lambda>e. now < ttl_expiry e) (mset (heap h')) = mset (heap h')"
    using late by (auto simp: filter_mset_eq_conv)
  have "mset es = filter_mset (\<lambda>e. ttl_expiry e \<le> now) (mset (heap h))"
    unfolding es(4) by (simp add: f1 f2)
  moreover have "mset (heap h') = filter_mset (\<lambda>e. now < ttl_expiry e) (mset (heap h))"
    unfolding es(4) by (simp add: f3 f4)
  ultimately show ?thesis using es(1,2,4,5) by blast
qed

definition heap_abcdef :: TTLHeap where
  "heap_abcdef =
     foldl (\<lambda>h (k, e). TTLHeap_add h k e) TTLHeap_new
       [(''a'', 1), (''b'', 10), (''c'', 2), (''d'', 11), (''e'', 12), (''f'', 3)]"

lemma heap_abcdef_inv: "heap_inv heap_abcdef"
  unfolding heap_abcdef_def by (simp add: TTLHeap_add_inv heap_inv_new)

lemma heap_abcdef_heap:
  "heap heap_abcdef =
     [\<lparr>ttl_key = ''a'', ttl_expiry = 1\<rparr>, \<lparr>ttl_key = ''b'', ttl_expiry = 10\<rparr>,
      \<lparr>ttl_key = ''c'', ttl_expiry = 2\<rparr>, \<lparr>ttl_key = ''d'', ttl_expiry = 11\<rparr>,
      \<lparr>ttl_key = ''e'', ttl_expiry = 12\<rparr>, \<lparr>ttl_key = ''f'', ttl_expiry = 3\<rparr>]"
  by (simp add: heap_abcdef_def TTLHeap_add_def TTLHeap_new_def heapify_up.simps)

lemma heap_abcdef_index_d: "key_to_index heap_abcdef ''d'' = Some 3"
  by (simp add: heap_abcdef_def TTLHeap_add_def TTLHeap_new_def heapify_up.simps)

lemma heap_abcdef_remove_d:
  "heap (TTLHeap_remove heap_abcdef ''d'') =
     [\<lparr>ttl_key = ''a'', ttl_expiry = 1\<rparr>, \<lparr>ttl_key = ''b'', ttl_expiry = 10\<rparr>,
      \<lparr>ttl_key = ''c'', ttl_expiry = 2\<rparr>, \<lparr>ttl_key = ''f'', ttl_expiry = 3\<rparr>,
      \<lparr>ttl_key = ''e'', ttl_expiry = 12\<rparr>]"
  by (simp add: TTLHeap_remove_def heap_abcdef_index_d heap_abcdef_heap Let_def
      heap_swap_entries pop_back_erase_def heapify_down.simps smallest_of_def)

text \<open>
  Claim C6 (every scheduler operation preserves the indexed-heap invariant; \<open>remove\<close> of an
  interior key sifts down and up). \<open>add\<close>, \<open>update\<close> of a key in the heap,
  \<open>get_expired_keys\<close> and \<open>clear\<close> preserve the invariant (\<open>TTLHeap_add_inv\<close>, \<open>TTLHeap_update_inv\<close>, \<open>get_expired_keys_spec\<close>,
  \<open>heap_inv_clear\<close>). \<open>TTLHeap::remove\<close> calls \<open>heapify_down\<close> only: on the heap built by
  adding a:1, b:10, c:2, d:11, e:12, f:3, which satisfies the invariant, removing \<open>d\<close> moves
  \<open>f\<close> (expiry 3) to index 3 below \<open>b\<close> (expiry 10) at index 1, and the heap order is broken.
\<close>

theorem TTLHeap_remove_breaks_heap_order:
  "heap_inv heap_abcdef \<and>
   map ttl_expiry (heap heap_abcdef) = [1, 10, 2, 11, 12, 3] \<and>
   map ttl_expiry (heap (TTLHeap_remove heap_abcdef ''d'')) = [1, 10, 2, 3, 12] \<and>
   \<not> heap_order (heap (TTLHeap_remove heap_abcdef ''d'')) \<and>
   \<not> heap_inv (TTLHeap_remove heap_abcdef ''d'')"
proof -
  have a: "\<not> heap_order (heap (TTLHeap_remove heap_abcdef ''d''))"
    by (simp add: heap_abcdef_remove_d heap_order_def)
  then have "\<not> heap_inv (TTLHeap_remove heap_abcdef ''d'')"
    by (simp add: heap_inv_def)
  with a show ?thesis
    by (simp add: heap_abcdef_inv heap_abcdef_heap heap_abcdef_remove_d)
qed

definition heap_abc :: TTLHeap where
  "heap_abc = TTLHeap_add (TTLHeap_add (TTLHeap_add TTLHeap_new ''a'' 3) ''b'' 5) ''c'' 9"

text \<open>
  Claim C7 (\<open>drain_expired(now)\<close> returns exactly the keys whose expiry is at most \<open>now\<close>, in
  non-decreasing expiry order, and leaves the smallest remaining expiry greater than
  \<open>now\<close>). For a heap satisfying the invariant, the keys returned by \<open>get_expired_keys\<close>
  are distinct and are the keys of the entries with expiry \<open>\<le> now\<close>; their expiries in
  the heap are sorted; the entries left are those with expiry \<open>> now\<close>, so the next expiry,
  if any, is later than \<open>now\<close>; and the invariant holds afterwards.
\<close>

theorem get_expired_keys_correct:
  assumes inv: "heap_inv h" and run: "TTLHeap_get_expired_keys h now = (ks, h')"
  shows "set ks = ttl_key ` {e \<in> set (heap h). ttl_expiry e \<le> now} \<and> distinct ks \<and>
         sorted (map (expiry_of h) ks) \<and>
         mset (heap h') = filter_mset (\<lambda>e. now < ttl_expiry e) (mset (heap h)) \<and>
         (\<forall>e\<in>set (heap h'). now < ttl_expiry e) \<and>
         (case TTLHeap_next_expiry h' of None \<Rightarrow> True | Some t \<Rightarrow> now < t) \<and>
         heap_inv h'"
proof -
  from get_expired_keys_spec[OF inv run] obtain es where
    es: "ks = map ttl_key es" "sorted (map ttl_expiry es)"
      "mset es = filter_mset (\<lambda>e. ttl_expiry e \<le> now) (mset (heap h))"
      "mset (heap h') = filter_mset (\<lambda>e. now < ttl_expiry e) (mset (heap h))"
      "heap_inv h'" "mset (heap h) = mset es + mset (heap h')"
    by blast
  from inv have pos: "pos_ok h" by (simp add: heap_inv_def)
  have "set_mset (mset es) = {e \<in> set (heap h). ttl_expiry e \<le> now}"
    unfolding es(3) by auto
  then have ses: "set es = {e \<in> set (heap h). ttl_expiry e \<le> now}" by simp
  then have c1: "set ks = ttl_key ` {e \<in> set (heap h). ttl_expiry e \<le> now}"
    by (simp add: es(1))
  have "mset (map ttl_key (heap h)) = mset (map ttl_key (es @ heap h'))"
    using es(6) by simp
  then have "distinct (map ttl_key (es @ heap h'))"
    using pos_ok_distinct_keys[OF pos] mset_eq_imp_distinct_iff by blast
  then have c2: "distinct ks" by (simp add: es(1))
  have "map (expiry_of h) ks = map ttl_expiry es"
    unfolding es(1) map_map
  proof (rule map_cong[OF refl])
    fix e assume "e \<in> set es"
    then have "e \<in> set (heap h)" using ses by simp
    then show "(expiry_of h \<circ> ttl_key) e = ttl_expiry e"
      using expiry_of_entry[OF pos] by simp
  qed
  then have c3: "sorted (map (expiry_of h) ks)" using es(2) by simp
  have "set_mset (mset (heap h')) = {e \<in> set (heap h). now < ttl_expiry e}"
    unfolding es(4) by auto
  then have c5: "\<forall>e\<in>set (heap h'). now < ttl_expiry e" by simp
  have c6: "(case TTLHeap_next_expiry h' of None \<Rightarrow> True | Some t \<Rightarrow> now < t)"
  proof (cases "heap h' = []")
    case True
    then show ?thesis by (simp add: TTLHeap_next_expiry_def)
  next
    case False
    then have "heap h' ! 0 \<in> set (heap h')" by simp
    with c5 False show ?thesis by (simp add: TTLHeap_next_expiry_def)
  qed
  from c1 c2 c3 es(4) c5 c6 es(5) show ?thesis by blast
qed

lemma heap_abc_inv: "heap_inv heap_abc"
  unfolding heap_abc_def by (simp add: TTLHeap_add_inv heap_inv_new)

lemma heap_abc_run:
  "fst (TTLHeap_get_expired_keys heap_abc 5) = [''a'', ''b''] \<and>
   heap (snd (TTLHeap_get_expired_keys heap_abc 5)) = [\<lparr>ttl_key = ''c'', ttl_expiry = 9\<rparr>]"
  by (simp add: heap_abc_def TTLHeap_get_expired_keys_def TTLHeap_add_def TTLHeap_new_def
      heapify_up.simps expired_loop.simps Let_def heap_swap_entries pop_back_erase_def
      heapify_down.simps smallest_of_def swap_entries_def)

theorem get_expired_keys_correct_witness:
  "heap_inv heap_abc \<and>
   fst (TTLHeap_get_expired_keys heap_abc 5) = [''a'', ''b''] \<and>
   map (expiry_of heap_abc) [''a'', ''b''] = [3, 5] \<and>
   sorted (map (expiry_of heap_abc) (fst (TTLHeap_get_expired_keys heap_abc 5))) \<and>
   set (fst (TTLHeap_get_expired_keys heap_abc 5)) =
     ttl_key ` {e \<in> set (heap heap_abc). ttl_expiry e \<le> 5} \<and>
   heap (snd (TTLHeap_get_expired_keys heap_abc 5)) = [\<lparr>ttl_key = ''c'', ttl_expiry = 9\<rparr>] \<and>
   heap_inv (snd (TTLHeap_get_expired_keys heap_abc 5))"
proof -
  have run: "TTLHeap_get_expired_keys heap_abc 5 =
      (fst (TTLHeap_get_expired_keys heap_abc 5), snd (TTLHeap_get_expired_keys heap_abc 5))"
    by simp
  have e: "map (expiry_of heap_abc) [''a'', ''b''] = [3, 5]"
    by (simp add: expiry_of_def heap_abc_def TTLHeap_add_def TTLHeap_new_def heapify_up.simps)
  from get_expired_keys_correct[OF heap_abc_inv run] heap_abc_inv heap_abc_run e
  show ?thesis by blast
qed

text \<open>A stand-in for \<open>std::hash<std::string>\<close> in the closed examples.\<close>

definition hash0 :: "string \<Rightarrow> nat" where
  "hash0 k = length k"

lemmas engine_defs =
  StorageEngine_new_def StorageEngine_set_def StorageEngine_set_nx_def StorageEngine_set_ex_def
  StorageEngine_get_def StorageEngine_del_def StorageEngine_exists_def StorageEngine_expire_def
  StorageEngine_ttl_def StorageEngine_zadd_def StorageEngine_zcard_def StorageEngine_dbsize_def
  get_sorted_set_def process_expired_keys_def

lemmas hash_table_defs =
  HashTable_new_def HashTable_set_def HashTable_set_with_expiry_def HashTable_get_def
  HashTable_del_def HashTable_exists_def HashTable_expire_def HashTable_size_def
  hash_function_def find_entry_def update_entry_def erase_entry_def emplace_back_def
  resize_if_needed_def is_expired_def erase_def hash0_def is_string_def as_string_def
  seconds_def ticks_per_second_def size_dec_def

lemmas ttl_heap_defs =
  TTLHeap_new_def TTLHeap_add_def TTLHeap_remove_def TTLHeap_get_expired_keys_def
  heapify_up.simps heapify_down.simps expired_loop.simps smallest_of_def swap_entries_def
  pop_back_erase_def set_expiry_def

lemma StorageEngine_set_keeps_ttl_heap:
  "ttl_heap (snd (StorageEngine_set lazy H now s k v)) = ttl_heap s"
  by (simp add: StorageEngine_set_def split: prod.splits)

text \<open>
  Claim C3 (\<open>set(k, v)\<close> on a key with a scheduled expiry clears the expiry and removes
  \<open>k\<close> from the scheduler's heap, so the worker never deletes the key afterwards).
  \<open>HashTable::set\<close> resets the expiry of the entry, but \<open>StorageEngine::set\<close> leaves the
  TTL heap as it is (\<open>StorageEngine_set_keeps_ttl_heap\<close>), unlike \<open>StorageEngine::del\<close>.
  After \<open>set_ex(k, v, 1)\<close> and \<open>set(k, w)\<close> the heap still holds \<open>k\<close>; the worker's pass two
  seconds later deletes the entry and \<open>get(k)\<close> returns nothing. Both copies of the hash
  table behave so.
\<close>

theorem set_leaves_key_in_ttl_heap:
  "(let s1 = snd (StorageEngine_set_ex lazy hash0 0 0 StorageEngine_new ''k'' ''v'' 1);
        s2 = snd (StorageEngine_set lazy hash0 1 s1 ''k'' ''w'');
        s3 = process_expired_keys hash0 (seconds 2) s2
    in fst (StorageEngine_get lazy hash0 2 s2 ''k'') = Some ''w'' \<and>
       map ttl_key (heap (ttl_heap s2)) = [''k''] \<and>
       fst (StorageEngine_get lazy hash0 (seconds 2) s3 ''k'') = None \<and>
       StorageEngine_dbsize s3 = 0)"
  by (simp add: engine_defs hash_table_defs ttl_heap_defs Let_def)


text \<open>A stand-in for \<open>std::stod\<close> on the score tokens of the examples.\<close>

definition stod0 :: "string \<Rightarrow> score option" where
  "stod0 tok =
     (if tok = ''nan'' then Some NaN
      else if tok = ''1'' then Some (Num 1)
      else if tok = ''2'' then Some (Num 2)
      else if tok = ''3'' then Some (Num 3)
      else if tok = ''5'' then Some (Num 5)
      else None)"

text \<open>The value the claim C4 gives for TTL, in the claim's words.\<close>

definition claimed_ttl :: "Entry option \<Rightarrow> int \<Rightarrow> int" where
  "claimed_ttl e now =
     (case e of
        None \<Rightarrow> - 2
      | Some e \<Rightarrow>
          (case entry_expiry e of
             None \<Rightarrow> - 1
           | Some t \<Rightarrow> (t - now) div ticks_per_second))"

theorem cmd_ttl_counterexample:
  "(let s1 = snd (StorageEngine_set_ex False hash0 0 0 StorageEngine_new ''k'' ''v'' 10);
        e = \<lparr>entry_key = ''k'', entry_value = STRING ''v'', entry_expiry = Some (seconds 10)\<rparr>
    in buckets (hash_table s1) ! hash0 ''k'' = [e] \<and>
       claimed_ttl (Some e) (seconds 3) = 7 \<and>
       fst (cmd_ttl False hash0 (seconds 3) [''TTL'', ''k''] s1) = RInteger 0) \<and>
   (let s1 = snd (StorageEngine_set_ex True hash0 0 0 StorageEngine_new ''k'' ''v'' 10);
        e = \<lparr>entry_key = ''k'', entry_value = STRING ''v'', entry_expiry = Some (seconds 10)\<rparr>
    in buckets (hash_table s1) ! hash0 ''k'' = [e] \<and>
       claimed_ttl (Some e) (seconds 3) = 7 \<and>
       fst (cmd_ttl True hash0 (seconds 3) [''TTL'', ''k''] s1) = RInteger 0)"
  by (simp add: engine_defs hash_table_defs ttl_heap_defs cmd_ttl_def claimed_ttl_def Let_def)



section \<open>The hash table as a map\<close>

text \<open>
  The entries of the table are the entries of its buckets, in bucket order; the entry of
  a key is the first one carrying it. The invariant: \<open>bucket_count\<close> is the number of
  buckets and is positive, every entry lies in the bucket of its hash, no key occurs
  twice, and \<open>size_\<close> counts the entries.
\<close>

definition ht_entries :: "HashTable \<Rightarrow> Entry list" where
  "ht_entries ht = concat (buckets ht)"

definition ht_lookup :: "HashTable \<Rightarrow> string \<Rightarrow> Entry option" where
  "ht_lookup ht k = find (\<lambda>e. entry_key e = k) (ht_entries ht)"

definition ht_inv :: "(string \<Rightarrow> nat) \<Rightarrow> HashTable \<Rightarrow> bool" where
  "ht_inv H ht \<longleftrightarrow>
     bucket_count ht = length (buckets ht) \<and> 0 < bucket_count ht \<and>
     (\<forall>i<length (buckets ht). \<forall>e\<in>set (buckets ht ! i). H (entry_key e) mod bucket_count ht = i) \<and>
     distinct (map entry_key (ht_entries ht)) \<and>
     ht_size ht = length (ht_entries ht)"

lemma find_pos_None: "find_pos es k = None \<longleftrightarrow> (\<forall>e\<in>set es. entry_key e \<noteq> k)"
  by (induction es) auto

lemma find_pos_None_find: "find_pos es k = None \<Longrightarrow> find (\<lambda>e. entry_key e = k) es = None"
  by (simp add: find_pos_None find_None_iff)

lemma find_pos_Some:
  "find_pos es k = Some i \<Longrightarrow>
     i < length es \<and> entry_key (es ! i) = k \<and> find (\<lambda>e. entry_key e = k) es = Some (es ! i)"
proof (induction es arbitrary: i)
  case Nil
  then show ?case by simp
next
  case (Cons e es)
  show ?case
  proof (cases "entry_key e = k")
    case True
    with Cons.prems show ?thesis by simp
  next
    case False
    with Cons.prems obtain j where j: "find_pos es k = Some j" "i = Suc j" by auto
    from Cons.IH[OF j(1)] False j(2) show ?thesis by simp
  qed
qed

lemma find_concat_none:
  "(\<forall>b\<in>set bs. \<forall>e\<in>set b. \<not> P e) \<Longrightarrow> find P (concat bs) = None"
  by (auto simp: find_None_iff)

lemma find_append_none: "(\<forall>e\<in>set xs. \<not> P e) \<Longrightarrow> find P (xs @ ys) = find P ys"
  by (induction xs) auto

lemma find_append_some: "find P xs = Some x \<Longrightarrow> find P (xs @ ys) = Some x"
  by (induction xs) (auto split: if_splits)

lemma find_concat_bucket:
  "j < length bs \<Longrightarrow> (\<forall>i<length bs. i \<noteq> j \<longrightarrow> (\<forall>e\<in>set (bs ! i). \<not> P e)) \<Longrightarrow>
     find P (concat bs) = find P (bs ! j)"
proof (induction bs arbitrary: j)
  case Nil
  then show ?case by simp
next
  case (Cons b bs)
  show ?case
  proof (cases j)
    case 0
    have rest: "\<forall>b'\<in>set bs. \<forall>e\<in>set b'. \<not> P e"
    proof
      fix b' assume "b' \<in> set bs"
      then obtain i where i: "i < length bs" "bs ! i = b'" by (auto simp: in_set_conv_nth)
      then have "\<forall>e\<in>set ((b # bs) ! Suc i). \<not> P e" using Cons.prems(2) 0 by auto
      with i show "\<forall>e\<in>set b'. \<not> P e" by simp
    qed
    show ?thesis
    proof (cases "find P b")
      case None
      then have "\<forall>e\<in>set b. \<not> P e" by (simp add: find_None_iff)
      then have "find P (b @ concat bs) = find P (concat bs)" by (rule find_append_none)
      with None find_concat_none[OF rest] 0 show ?thesis by simp
    next
      case (Some x)
      then show ?thesis using 0 by (simp add: find_append_some)
    qed
  next
    case (Suc j')
    have "\<forall>e\<in>set ((b # bs) ! 0). \<not> P e" using Cons.prems(2) Suc by blast
    then have b: "\<forall>e\<in>set b. \<not> P e" by simp
    have "find P (concat bs) = find P (bs ! j')"
    proof (rule Cons.IH)
      show "j' < length bs" using Cons.prems(1) Suc by simp
      show "\<forall>i<length bs. i \<noteq> j' \<longrightarrow> (\<forall>e\<in>set (bs ! i). \<not> P e)"
      proof (intro allI impI)
        fix i assume "i < length bs" "i \<noteq> j'"
        then have "\<forall>e\<in>set ((b # bs) ! Suc i). \<not> P e" using Cons.prems(2) Suc by auto
        then show "\<forall>e\<in>set (bs ! i). \<not> P e" by simp
      qed
    qed
    with b Suc show ?thesis by (simp add: find_append_none)
  qed
qed

lemma hash_function_less: "ht_inv H ht \<Longrightarrow> hash_function H ht k < length (buckets ht)"
  by (auto simp: ht_inv_def hash_function_def)

lemma lookup_bucket:
  assumes inv: "ht_inv H ht"
  shows "ht_lookup ht k = find (\<lambda>e. entry_key e = k) (buckets ht ! hash_function H ht k)"
  unfolding ht_lookup_def ht_entries_def
proof (rule find_concat_bucket)
  show "hash_function H ht k < length (buckets ht)" using inv by (rule hash_function_less)
  show "\<forall>i<length (buckets ht). i \<noteq> hash_function H ht k \<longrightarrow>
          (\<forall>e\<in>set (buckets ht ! i). \<not> entry_key e = k)"
    using inv by (auto simp: ht_inv_def hash_function_def)
qed

lemma find_entry_None:
  assumes "ht_inv H ht" "find_entry ht k (hash_function H ht k) = None"
  shows "ht_lookup ht k = None"
  using assms by (simp add: lookup_bucket find_entry_def find_pos_None_find)

lemma find_entry_Some:
  assumes "ht_inv H ht" "find_entry ht k (hash_function H ht k) = Some i"
  shows "i < length (buckets ht ! hash_function H ht k) \<and>
         ht_lookup ht k = Some (buckets ht ! hash_function H ht k ! i)"
  using assms find_pos_Some[of "buckets ht ! hash_function H ht k" k i]
  by (simp add: lookup_bucket find_entry_def)

lemma lookup_key: "ht_lookup ht k = Some e \<Longrightarrow> entry_key e = k"
  unfolding ht_lookup_def by (auto simp: find_Some_iff)

lemma find_entry_cases:
  assumes inv: "ht_inv H ht"
  shows "(ht_lookup ht k = None \<and> find_entry ht k (hash_function H ht k) = None) \<or>
         (\<exists>i. find_entry ht k (hash_function H ht k) = Some i \<and>
              i < length (buckets ht ! hash_function H ht k) \<and>
              ht_lookup ht k = Some (buckets ht ! hash_function H ht k ! i))"
proof (cases "find_entry ht k (hash_function H ht k)")
  case None
  with find_entry_None[OF inv None] show ?thesis by simp
next
  case (Some i)
  with find_entry_Some[OF inv Some] show ?thesis by simp
qed

subsection \<open>Resizing\<close>

definition kept :: "bool \<Rightarrow> int \<Rightarrow> Entry list \<Rightarrow> Entry list" where
  "kept lazy now es = filter (\<lambda>e. \<not> (lazy \<and> is_expired e now)) es"

lemma kept_Cons:
  "kept lazy now (e # es) =
     (if lazy \<and> is_expired e now then kept lazy now es else e # kept lazy now es)"
  by (simp add: kept_def)

lemma length_kept: "length (kept lazy now es) \<le> length es"
  by (simp add: kept_def)

lemma resize_fold:
  "length nb = n \<Longrightarrow> length es - length (kept lazy now es) \<le> sz \<Longrightarrow>
     foldl (resize_step lazy H now n) (nb, sz) es =
       (map (\<lambda>i. nb ! i @ filter (\<lambda>e. H (entry_key e) mod n = i) (kept lazy now es)) [0..<n],
        sz - (length es - length (kept lazy now es)))"
proof (induction es arbitrary: nb sz)
  case Nil
  have "map (\<lambda>i. nb ! i) [0..<length nb] = nb" by (rule map_nth)
  with Nil show ?case by (simp add: kept_def)
next
  case (Cons e es)
  show ?case
  proof (cases "lazy \<and> is_expired e now")
    case True
    then have k: "kept lazy now (e # es) = kept lazy now es" by (simp add: kept_Cons)
    have le: "length (kept lazy now es) \<le> length es" by (rule length_kept)
    from Cons.prems(2) k le have sz: "0 < sz" "length es - length (kept lazy now es) \<le> sz - 1"
      by simp_all
    have step: "resize_step lazy H now n (nb, sz) e = (nb, sz - 1)"
      using True sz(1) by (simp add: resize_step_def size_dec_def)
    have "foldl (resize_step lazy H now n) (nb, sz) (e # es) =
          foldl (resize_step lazy H now n) (nb, sz - 1) es"
      by (simp add: step)
    also have "\<dots> = (map (\<lambda>i. nb ! i @ filter (\<lambda>e. H (entry_key e) mod n = i) (kept lazy now es)) [0..<n],
        sz - 1 - (length es - length (kept lazy now es)))"
      using Cons.prems(1) sz(2) by (rule Cons.IH)
    finally show ?thesis using k le by simp
  next
    case False
    then have k: "kept lazy now (e # es) = e # kept lazy now es" by (simp add: kept_Cons)
    let ?j = "H (entry_key e) mod n"
    let ?nb = "nb[?j := nb ! ?j @ [e]]"
    have le: "length (kept lazy now es) \<le> length es" by (rule length_kept)
    have step: "resize_step lazy H now n (nb, sz) e = (?nb, sz)"
      using False by (auto simp: resize_step_def Let_def)
    have l: "length ?nb = n" using Cons.prems(1) by simp
    have s: "length es - length (kept lazy now es) \<le> sz" using Cons.prems(2) k by simp
    have "foldl (resize_step lazy H now n) (nb, sz) (e # es) =
          foldl (resize_step lazy H now n) (?nb, sz) es"
      by (simp add: step)
    also have "\<dots> = (map (\<lambda>i. ?nb ! i @ filter (\<lambda>e. H (entry_key e) mod n = i) (kept lazy now es)) [0..<n],
        sz - (length es - length (kept lazy now es)))"
      using l s by (rule Cons.IH)
    also have "map (\<lambda>i. ?nb ! i @ filter (\<lambda>e. H (entry_key e) mod n = i) (kept lazy now es)) [0..<n] =
        map (\<lambda>i. nb ! i @ filter (\<lambda>e. H (entry_key e) mod n = i) (kept lazy now (e # es))) [0..<n]"
    proof (rule map_cong[OF refl])
      fix i assume "i \<in> set [0..<n]"
      then have "i < length nb" using Cons.prems(1) by simp
      then show "?nb ! i @ filter (\<lambda>e. H (entry_key e) mod n = i) (kept lazy now es) =
            nb ! i @ filter (\<lambda>e. H (entry_key e) mod n = i) (kept lazy now (e # es))"
        unfolding k by (cases "i = ?j") (simp_all add: nth_list_update)
    qed
    finally show ?thesis using k le by simp
  qed
qed

lemma resize_eq:
  assumes "length (ht_entries ht) \<le> ht_size ht"
  shows "resize lazy H now ht n =
     \<lparr>bucket_count = n,
      buckets = map (\<lambda>i. filter (\<lambda>e. H (entry_key e) mod n = i) (kept lazy now (ht_entries ht))) [0..<n],
      ht_size = ht_size ht - (length (ht_entries ht) - length (kept lazy now (ht_entries ht)))\<rparr>"
proof -
  have "length (ht_entries ht) - length (kept lazy now (ht_entries ht)) \<le> ht_size ht"
    using assms by simp
  from resize_fold[where nb = "replicate n []" and n = n and H = H and es = "ht_entries ht"
      and lazy = lazy and now = now and sz = "ht_size ht", OF length_replicate this]
  show ?thesis by (simp add: resize_def ht_entries_def)
qed

lemma mset_concat_partition:
  "(\<forall>e\<in>set xs. f e < n) \<Longrightarrow>
     mset (concat (map (\<lambda>i. filter (\<lambda>e. f e = i) xs) [0..<n])) = mset xs"
proof -
  have "mset (concat (map (\<lambda>i. filter (\<lambda>e. f e = i) xs) [0..<m])) =
        filter_mset (\<lambda>e. f e < m) (mset xs)" for m
  proof (induction m)
    case 0
    then show ?case by simp
  next
    case (Suc m)
    have "filter_mset (\<lambda>e. f e < Suc m) (mset xs) =
          filter_mset (\<lambda>e. f e < m) (mset xs) + filter_mset (\<lambda>e. f e = m) (mset xs)"
      by (induction xs) auto
    with Suc show ?case by simp
  qed
  moreover assume "\<forall>e\<in>set xs. f e < n"
  then have "filter_mset (\<lambda>e. f e < n) (mset xs) = mset xs"
    by (auto simp: filter_mset_eq_conv)
  ultimately show ?thesis by simp
qed

lemma distinct_keys_filter:
  "distinct (map entry_key es) \<Longrightarrow> distinct (map entry_key (filter P es))"
  by (rule distinct_map_filter)

lemma find_filter_keys:
  assumes d: "distinct (map entry_key es)"
  shows "find (\<lambda>e. entry_key e = k) (filter P es) =
     (case find (\<lambda>e. entry_key e = k) es of
        None \<Rightarrow> None
      | Some e \<Rightarrow> if P e then Some e else None)"
  using d
proof (induction es)
  case Nil
  then show ?case by simp
next
  case (Cons e es)
  show ?case
  proof (cases "entry_key e = k")
    case True
    have "entry_key x \<noteq> k" if "x \<in> set es" for x
    proof
      assume "entry_key x = k"
      with that have "k \<in> entry_key ` set es" by force
      with Cons.prems True show False by simp
    qed
    then have "\<forall>x\<in>set es. entry_key x \<noteq> k" by blast
    then have "find (\<lambda>e. entry_key e = k) (filter P es) = None" by (auto simp: find_None_iff)
    with True show ?thesis by simp
  next
    case False
    with Cons show ?thesis by simp
  qed
qed

lemma mset_find_keys:
  fixes xs ys :: "Entry list"
  assumes m: "mset xs = mset ys" and d: "distinct (map entry_key xs)"
  shows "find (\<lambda>e. entry_key e = k) xs = find (\<lambda>e. entry_key e = k) ys"
proof -
  have dy: "distinct (map entry_key ys)"
    using d m mset_eq_imp_distinct_iff[of "map entry_key xs" "map entry_key ys"] by simp
  have s: "set xs = set ys" using m by (rule mset_eq_setD)
  have u: "find (\<lambda>e. entry_key e = k) zs = Some e \<longleftrightarrow> e \<in> set zs \<and> entry_key e = k"
    if "distinct (map entry_key zs)" for zs :: "Entry list" and e
    using that
  proof (induction zs)
    case Nil
    then show ?case by simp
  next
    case (Cons z zs)
    then show ?case by (cases "entry_key z = k") (auto simp: image_iff)
  qed
  show ?thesis
  proof (cases "find (\<lambda>e. entry_key e = k) xs")
    case None
    then have "\<forall>e\<in>set ys. entry_key e \<noteq> k" using s by (auto simp: find_None_iff)
    then have "find (\<lambda>e. entry_key e = k) ys = None" by (auto simp: find_None_iff)
    with None show ?thesis by simp
  next
    case (Some e)
    then have "e \<in> set ys \<and> entry_key e = k" using u[OF d] s by simp
    then have "find (\<lambda>e. entry_key e = k) ys = Some e" using u[OF dy] by simp
    with Some show ?thesis by simp
  qed
qed

lemma resize_facts:
  assumes inv: "ht_inv H ht" and n: "0 < n"
  shows "ht_inv H (resize lazy H now ht n) \<and> bucket_count (resize lazy H now ht n) = n \<and>
         mset (ht_entries (resize lazy H now ht n)) = mset (kept lazy now (ht_entries ht))"
proof -
  let ?es = "kept lazy now (ht_entries ht)"
  let ?bs = "map (\<lambda>i. filter (\<lambda>e. H (entry_key e) mod n = i) ?es) [0..<n]"
  from inv have sz: "ht_size ht = length (ht_entries ht)"
    and d: "distinct (map entry_key (ht_entries ht))" by (simp_all add: ht_inv_def)
  have r: "resize lazy H now ht n =
     \<lparr>bucket_count = n, buckets = ?bs,
      ht_size = ht_size ht - (length (ht_entries ht) - length ?es)\<rparr>"
    using sz by (intro resize_eq) simp
  have m: "mset (concat ?bs) = mset ?es"
    using n by (intro mset_concat_partition) simp
  have d': "distinct (map entry_key ?es)"
    unfolding kept_def using d by (rule distinct_keys_filter)
  have "mset (map entry_key (concat ?bs)) = mset (map entry_key ?es)" using m by simp
  then have d'': "distinct (map entry_key (concat ?bs))"
    using d' mset_eq_imp_distinct_iff by blast
  have "length (concat ?bs) = length ?es" using m by (rule mset_eq_length)
  moreover have "ht_size ht - (length (ht_entries ht) - length ?es) = length ?es"
    using sz length_kept[of lazy now "ht_entries ht"] by simp
  ultimately have s': "ht_size ht - (length (ht_entries ht) - length ?es) = length (concat ?bs)"
    by simp
  have l: "length ?bs = n" by simp
  have b: "\<forall>i<n. \<forall>e\<in>set (?bs ! i). H (entry_key e) mod n = i"
  proof (intro allI impI ballI)
    fix i e assume i: "i < n" and e: "e \<in> set (?bs ! i)"
    from i have "?bs ! i = filter (\<lambda>e. H (entry_key e) mod n = i) ?es" by simp
    with e show "H (entry_key e) mod n = i" by simp
  qed
  define bs where "bs = ?bs"
  define sz where "sz = ht_size ht - (length (ht_entries ht) - length ?es)"
  have "ht_inv H \<lparr>bucket_count = n, buckets = bs, ht_size = sz\<rparr>"
    unfolding ht_inv_def ht_entries_def
    using n d''[folded bs_def] s'[folded bs_def sz_def] b[folded bs_def] l[folded bs_def]
    by simp
  moreover have "mset (ht_entries \<lparr>bucket_count = n, buckets = bs, ht_size = sz\<rparr>) = mset ?es"
    using m[folded bs_def] by (simp add: ht_entries_def)
  ultimately show ?thesis unfolding r bs_def[symmetric] sz_def[symmetric] by simp
qed

lemma lookup_kept:
  assumes inv: "ht_inv H ht"
  shows "find (\<lambda>e. entry_key e = k) (kept lazy now (ht_entries ht)) =
     (case ht_lookup ht k of
        None \<Rightarrow> None
      | Some e \<Rightarrow> if lazy \<and> is_expired e now then None else Some e)"
proof -
  from inv have d: "distinct (map entry_key (ht_entries ht))" by (simp add: ht_inv_def)
  show ?thesis
    unfolding kept_def ht_lookup_def find_filter_keys[OF d]
    by (auto split: option.splits)
qed

lemma resize_lookup:
  assumes inv: "ht_inv H ht" and n: "0 < n"
  shows "ht_lookup (resize lazy H now ht n) k =
     (case ht_lookup ht k of
        None \<Rightarrow> None
      | Some e \<Rightarrow> if lazy \<and> is_expired e now then None else Some e)"
proof -
  from resize_facts[OF inv n, of lazy now]
  have i': "ht_inv H (resize lazy H now ht n)"
    and m: "mset (ht_entries (resize lazy H now ht n)) = mset (kept lazy now (ht_entries ht))"
    by simp_all
  from i' have "distinct (map entry_key (ht_entries (resize lazy H now ht n)))"
    by (simp add: ht_inv_def)
  with m have "find (\<lambda>e. entry_key e = k) (ht_entries (resize lazy H now ht n)) =
      find (\<lambda>e. entry_key e = k) (kept lazy now (ht_entries ht))"
    by (rule mset_find_keys)
  then show ?thesis using lookup_kept[OF inv] by (simp add: ht_lookup_def)
qed

lemma resize_if_needed_inv:
  assumes inv: "ht_inv H ht"
  shows "ht_inv H (resize_if_needed lazy H now ht)"
proof (cases "4 * ht_size ht > 3 * bucket_count ht")
  case True
  from inv have "0 < bucket_count ht * 2" by (auto simp: ht_inv_def)
  from resize_facts[OF inv this] True show ?thesis by (simp add: resize_if_needed_def)
next
  case False
  with inv show ?thesis by (simp add: resize_if_needed_def)
qed

lemma resize_if_needed_lookup:
  assumes inv: "ht_inv H ht" and live: "ht_lookup ht k = Some e" "\<not> is_expired e now"
  shows "ht_lookup (resize_if_needed lazy H now ht) k = Some e"
proof (cases "4 * ht_size ht > 3 * bucket_count ht")
  case True
  from inv have "0 < bucket_count ht * 2" by (auto simp: ht_inv_def)
  from resize_lookup[OF inv this, of lazy now k] live True show ?thesis
    by (simp add: resize_if_needed_def)
next
  case False
  with live show ?thesis by (simp add: resize_if_needed_def)
qed

lemma resize_if_needed_lookup_None:
  assumes inv: "ht_inv H ht" and "ht_lookup ht k = None"
  shows "ht_lookup (resize_if_needed lazy H now ht) k = None"
proof (cases "4 * ht_size ht > 3 * bucket_count ht")
  case True
  from inv have "0 < bucket_count ht * 2" by (auto simp: ht_inv_def)
  from resize_lookup[OF inv this, of lazy now k] assms(2) True show ?thesis
    by (simp add: resize_if_needed_def)
next
  case False
  with assms(2) show ?thesis by (simp add: resize_if_needed_def)
qed

subsection \<open>Changing one bucket\<close>

lemma mset_concat_update:
  assumes "j < length bs"
  shows "mset (concat (bs[j := b'])) + mset (bs ! j) = mset (concat bs) + mset b'"
proof -
  have u: "bs[j := b'] = take j bs @ b' # drop (Suc j) bs"
    using assms by (rule upd_conv_take_nth_drop)
  have "concat bs = concat (take j bs @ bs ! j # drop (Suc j) bs)"
    using id_take_nth_drop[OF assms] by simp
  then have "mset (concat bs) =
      mset (concat (take j bs)) + mset (bs ! j) + mset (concat (drop (Suc j) bs))" by simp
  moreover have "mset (concat (bs[j := b'])) =
      mset (concat (take j bs)) + mset b' + mset (concat (drop (Suc j) bs))"
    unfolding u by simp
  ultimately show ?thesis by simp
qed

lemma find_cons_keys:
  fixes xs :: "Entry list"
  assumes m: "mset xs = add_mset e (mset ys)" and d: "distinct (map entry_key xs)"
  shows "find (\<lambda>x. entry_key x = k) xs =
           (if entry_key e = k then Some e else find (\<lambda>x. entry_key x = k) ys)"
proof -
  from m have "mset xs = mset (e # ys)" by simp
  from mset_find_keys[OF this d, of k] show ?thesis by simp
qed

lemma distinct_cons_keys:
  fixes xs :: "Entry list"
  assumes m: "mset xs = add_mset e (mset ys)"
  shows "distinct (map entry_key xs) \<longleftrightarrow>
           entry_key e \<notin> entry_key ` set ys \<and> distinct (map entry_key ys)"
proof -
  from m have "mset (map entry_key xs) = mset (map entry_key (e # ys))" by simp
  from mset_eq_imp_distinct_iff[OF this] show ?thesis by simp
qed

lemma lookup_None_keys: "ht_lookup ht k = None \<longleftrightarrow> k \<notin> entry_key ` set (ht_entries ht)"
  by (auto simp: ht_lookup_def find_None_iff)

lemma emplace_back_facts:
  assumes inv: "ht_inv H ht" and absent: "ht_lookup ht k = None" and k: "entry_key e = k"
  shows "ht_inv H (emplace_back ht (hash_function H ht k) e) \<and>
         ht_lookup (emplace_back ht (hash_function H ht k) e) k' =
           (if k' = k then Some e else ht_lookup ht k')"
proof -
  let ?j = "hash_function H ht k"
  let ?bs = "buckets ht"
  let ?bs' = "?bs[?j := ?bs ! ?j @ [e]]"
  let ?ht' = "emplace_back ht ?j e"
  have j: "?j < length ?bs" using inv by (rule hash_function_less)
  from inv have bc: "bucket_count ht = length ?bs" "0 < bucket_count ht"
    and mem: "\<And>i x. i < length ?bs \<Longrightarrow> x \<in> set (?bs ! i) \<Longrightarrow>
               H (entry_key x) mod bucket_count ht = i"
    and d: "distinct (map entry_key (ht_entries ht))"
    and sz: "ht_size ht = length (ht_entries ht)"
    by (auto simp: ht_inv_def)
  have b': "buckets ?ht' = ?bs'" "bucket_count ?ht' = bucket_count ht"
    "ht_size ?ht' = ht_size ht + 1"
    by (simp_all add: emplace_back_def)
  have "mset (concat ?bs') + mset (?bs ! ?j) = mset (concat ?bs) + mset (?bs ! ?j @ [e])"
    using j by (rule mset_concat_update)
  then have m: "mset (ht_entries ?ht') = add_mset e (mset (ht_entries ht))"
    by (simp add: ht_entries_def b')
  have d': "distinct (map entry_key (ht_entries ?ht'))"
    using distinct_cons_keys[OF m] d absent k by (simp add: lookup_None_keys)
  have "length (ht_entries ?ht') = Suc (length (ht_entries ht))"
    using m by (metis size_add_mset size_mset)
  then have sz': "ht_size ?ht' = length (ht_entries ?ht')" using sz b'(3) by simp
  have mem': "H (entry_key x) mod bucket_count ?ht' = i"
    if "i < length (buckets ?ht')" "x \<in> set (buckets ?ht' ! i)" for i x
  proof (cases "i = ?j")
    case True
    with that j have "x \<in> set (?bs ! ?j) \<or> x = e" by (auto simp: b')
    then show ?thesis
    proof
      assume "x \<in> set (?bs ! ?j)"
      with mem[OF j] True show ?thesis by (simp add: b')
    next
      assume "x = e"
      with k True b'(2) show ?thesis by (simp add: hash_function_def)
    qed
  next
    case False
    with that have "i < length ?bs" "x \<in> set (?bs ! i)" by (simp_all add: b')
    with mem show ?thesis by (simp add: b')
  qed
  have inv': "ht_inv H ?ht'"
    unfolding ht_inv_def using bc d' sz' mem' by (auto simp: b')
  have "ht_lookup ?ht' k' = (if k' = k then Some e else ht_lookup ht k')"
    unfolding ht_lookup_def using find_cons_keys[OF m d', of k'] k by auto
  with inv' show ?thesis by simp
qed

lemma erase_entry_facts:
  assumes inv: "ht_inv H ht" and f: "find_entry ht k (hash_function H ht k) = Some i"
  shows "ht_inv H (erase_entry ht (hash_function H ht k) i) \<and>
         ht_lookup (erase_entry ht (hash_function H ht k) i) k' =
           (if k' = k then None else ht_lookup ht k')"
proof -
  let ?j = "hash_function H ht k"
  let ?bs = "buckets ht"
  let ?b = "?bs ! ?j"
  let ?bs' = "?bs[?j := erase ?b i]"
  let ?ht' = "erase_entry ht ?j i"
  let ?old = "?b ! i"
  have j: "?j < length ?bs" using inv by (rule hash_function_less)
  from find_entry_Some[OF inv f] have i: "i < length ?b" and lk: "ht_lookup ht k = Some ?old"
    by simp_all
  have ko: "entry_key ?old = k" using lk by (rule lookup_key)
  from inv have bc: "bucket_count ht = length ?bs" "0 < bucket_count ht"
    and mem: "\<And>i x. i < length ?bs \<Longrightarrow> x \<in> set (?bs ! i) \<Longrightarrow>
               H (entry_key x) mod bucket_count ht = i"
    and d: "distinct (map entry_key (ht_entries ht))"
    and sz: "ht_size ht = length (ht_entries ht)"
    by (auto simp: ht_inv_def)
  have b': "buckets ?ht' = ?bs'" "bucket_count ?ht' = bucket_count ht"
    "ht_size ?ht' = size_dec (ht_size ht)"
    by (simp_all add: erase_entry_def)
  have sp: "?b = take i ?b @ ?old # drop (Suc i) ?b" using i by (rule id_take_nth_drop)
  have "mset ?b = add_mset ?old (mset (erase ?b i))"
    by (subst sp) (simp add: erase_def)
  moreover have "mset (concat ?bs') + mset ?b = mset (concat ?bs) + mset (erase ?b i)"
    using j by (rule mset_concat_update)
  ultimately have m: "mset (ht_entries ht) = add_mset ?old (mset (ht_entries ?ht'))"
    by (simp add: ht_entries_def b')
  from distinct_cons_keys[OF m] d
  have d': "distinct (map entry_key (ht_entries ?ht'))"
    and nk: "k \<notin> entry_key ` set (ht_entries ?ht')" using ko by simp_all
  have "length (ht_entries ht) = Suc (length (ht_entries ?ht'))"
    using m by (metis size_add_mset size_mset)
  then have sz': "ht_size ?ht' = length (ht_entries ?ht')"
    using sz b'(3) by (simp add: size_dec_def)
  have sub: "set (erase ?b i) \<subseteq> set ?b"
    unfolding erase_def using set_take_subset[of i ?b] set_drop_subset[of "Suc i" ?b] by auto
  have mem': "H (entry_key x) mod bucket_count ?ht' = i'"
    if "i' < length (buckets ?ht')" "x \<in> set (buckets ?ht' ! i')" for i' x
  proof (cases "i' = ?j")
    case True
    with that j sub have "x \<in> set ?b" by (auto simp: b')
    with mem[OF j] True show ?thesis by (simp add: b')
  next
    case False
    with that have "i' < length ?bs" "x \<in> set (?bs ! i')" by (simp_all add: b')
    with mem show ?thesis by (simp add: b')
  qed
  have inv': "ht_inv H ?ht'"
    unfolding ht_inv_def using bc d' sz' mem' by (auto simp: b')
  have "ht_lookup ht k' = (if k = k' then Some ?old else ht_lookup ?ht' k')"
    unfolding ht_lookup_def using find_cons_keys[OF m d, of k'] ko by simp
  moreover have "ht_lookup ?ht' k = None" using nk by (simp add: lookup_None_keys)
  ultimately have "ht_lookup ?ht' k' = (if k' = k then None else ht_lookup ht k')" by auto
  with inv' show ?thesis by simp
qed

lemma update_entry_facts:
  assumes inv: "ht_inv H ht" and f: "find_entry ht k (hash_function H ht k) = Some i"
    and key: "\<And>e. entry_key (g e) = entry_key e"
  shows "ht_inv H (update_entry ht (hash_function H ht k) i g) \<and>
         ht_lookup (update_entry ht (hash_function H ht k) i g) k' =
           (if k' = k then Some (g (buckets ht ! hash_function H ht k ! i)) else ht_lookup ht k')"
proof -
  let ?j = "hash_function H ht k"
  let ?bs = "buckets ht"
  let ?b = "?bs ! ?j"
  let ?old = "?b ! i"
  let ?r = "erase ?b i"
  let ?b' = "?b[i := g ?old]"
  let ?ht' = "update_entry ht ?j i g"
  have j: "?j < length ?bs" using inv by (rule hash_function_less)
  from find_entry_Some[OF inv f] have i: "i < length ?b" and lk: "ht_lookup ht k = Some ?old"
    by simp_all
  have ko: "entry_key ?old = k" using lk by (rule lookup_key)
  from inv have bc: "bucket_count ht = length ?bs" "0 < bucket_count ht"
    and mem: "\<And>i x. i < length ?bs \<Longrightarrow> x \<in> set (?bs ! i) \<Longrightarrow>
               H (entry_key x) mod bucket_count ht = i"
    and d: "distinct (map entry_key (ht_entries ht))"
    and sz: "ht_size ht = length (ht_entries ht)"
    by (auto simp: ht_inv_def)
  have b': "buckets ?ht' = ?bs[?j := ?b']" "bucket_count ?ht' = bucket_count ht"
    "ht_size ?ht' = ht_size ht"
    by (simp_all add: update_entry_def)
  have sp: "?b = take i ?b @ ?old # drop (Suc i) ?b" using i by (rule id_take_nth_drop)
  have sp': "?b' = take i ?b @ g ?old # drop (Suc i) ?b" using i by (rule upd_conv_take_nth_drop)
  have mb: "mset ?b = add_mset ?old (mset ?r)" by (subst sp) (simp add: erase_def)
  have mb': "mset ?b' = add_mset (g ?old) (mset ?r)" by (subst sp') (simp add: erase_def)
  define rest where "rest = concat (?bs[?j := ?r])"
  have "mset (concat (?bs[?j := ?r])) + mset ?b = mset (concat ?bs) + mset ?r"
    using j by (rule mset_concat_update)
  then have m: "mset (ht_entries ht) = add_mset ?old (mset rest)"
    using mb by (simp add: ht_entries_def rest_def)
  have "mset (concat (?bs[?j := ?b'])) + mset ?b = mset (concat ?bs) + mset ?b'"
    using j by (rule mset_concat_update)
  then have m': "mset (ht_entries ?ht') = add_mset (g ?old) (mset rest)"
    using mb mb' m by (simp add: ht_entries_def b')
  from distinct_cons_keys[OF m] d
  have dr: "distinct (map entry_key rest)" "entry_key ?old \<notin> entry_key ` set rest" by simp_all
  then have d': "distinct (map entry_key (ht_entries ?ht'))"
    using distinct_cons_keys[OF m'] key by simp
  have "length (ht_entries ?ht') = length (ht_entries ht)"
    using m m' by (metis size_add_mset size_mset)
  then have sz': "ht_size ?ht' = length (ht_entries ?ht')" using sz b'(3) by simp
  have old_in: "?old \<in> set ?b" using i by simp
  have mem': "H (entry_key x) mod bucket_count ?ht' = i'"
    if "i' < length (buckets ?ht')" "x \<in> set (buckets ?ht' ! i')" for i' x
  proof (cases "i' = ?j")
    case True
    with that j have "x \<in> set ?b'" by (simp add: b')
    then have "x \<in> insert (g ?old) (set ?b)" using set_update_subset_insert by fastforce
    then show ?thesis
    proof
      assume "x = g ?old"
      then have "entry_key x = entry_key ?old" by (simp add: key)
      with mem[OF j old_in] True show ?thesis by (simp add: b')
    next
      assume "x \<in> set ?b"
      with mem[OF j] True show ?thesis by (simp add: b')
    qed
  next
    case False
    with that have "i' < length ?bs" "x \<in> set (?bs ! i')" by (simp_all add: b')
    with mem show ?thesis by (simp add: b')
  qed
  have inv': "ht_inv H ?ht'"
    unfolding ht_inv_def using bc d' sz' mem' by (auto simp: b')
  have "ht_lookup ht k' = (if k = k' then Some ?old else find (\<lambda>x. entry_key x = k') rest)"
    unfolding ht_lookup_def using find_cons_keys[OF m d, of k'] ko by simp
  moreover have "ht_lookup ?ht' k' =
      (if k = k' then Some (g ?old) else find (\<lambda>x. entry_key x = k') rest)"
    unfolding ht_lookup_def using find_cons_keys[OF m' d', of k'] ko key by simp
  ultimately have "ht_lookup ?ht' k' = (if k' = k then Some (g ?old) else ht_lookup ht k')"
    by auto
  with inv' show ?thesis by simp
qed

lemma ht_inv_new: "0 < n \<Longrightarrow> ht_inv H (HashTable_new n)"
  by (simp add: ht_inv_def HashTable_new_def ht_entries_def)

lemma lookup_new: "ht_lookup (HashTable_new n) k = None"
  by (simp add: ht_lookup_def HashTable_new_def ht_entries_def)

lemma concat_map_nil: "concat (map (\<lambda>b. []) bs) = []"
  by (induction bs) auto

lemma ht_inv_clear: "ht_inv H ht \<Longrightarrow> ht_inv H (HashTable_clear ht)"
  by (auto simp: ht_inv_def HashTable_clear_def ht_entries_def concat_map_nil)

lemma lookup_clear: "ht_lookup (HashTable_clear ht) k = None"
  by (simp add: ht_lookup_def HashTable_clear_def ht_entries_def concat_map_nil)

subsection \<open>The operations of the table\<close>

lemma upsert_facts:
  assumes inv: "ht_inv H ht" and live: "\<not> (lazy \<and> is_expired \<lparr>entry_key = k, entry_value = v, entry_expiry = x\<rparr> now)"
  defines "ht' \<equiv>
     (case find_entry ht k (hash_function H ht k) of
        Some i \<Rightarrow> update_entry ht (hash_function H ht k) i
                    (\<lambda>e. e\<lparr>entry_value := v, entry_expiry := x\<rparr>)
      | None \<Rightarrow> resize_if_needed lazy H now
                  (emplace_back ht (hash_function H ht k)
                     \<lparr>entry_key = k, entry_value = v, entry_expiry = x\<rparr>))"
  shows "ht_inv H ht' \<and> ht_lookup ht' k = Some \<lparr>entry_key = k, entry_value = v, entry_expiry = x\<rparr>"
proof (cases "find_entry ht k (hash_function H ht k)")
  case None
  let ?e = "\<lparr>entry_key = k, entry_value = v, entry_expiry = x\<rparr>"
  let ?h1 = "emplace_back ht (hash_function H ht k) ?e"
  have absent: "ht_lookup ht k = None" using inv None by (rule find_entry_None)
  from emplace_back_facts[OF inv absent, of ?e k]
  have i1: "ht_inv H ?h1" and l1: "ht_lookup ?h1 k = Some ?e" by simp_all
  have "ht_inv H (resize_if_needed lazy H now ?h1)" using i1 by (rule resize_if_needed_inv)
  moreover have "ht_lookup (resize_if_needed lazy H now ?h1) k = Some ?e"
  proof (cases lazy)
    case True
    with live have "\<not> is_expired ?e now" by simp
    with i1 l1 show ?thesis by (rule resize_if_needed_lookup)
  next
    case False
    have "ht_lookup (resize_if_needed False H now ?h1) k = Some ?e"
    proof (cases "4 * ht_size ?h1 > 3 * bucket_count ?h1")
      case True
      from i1 have "0 < bucket_count ?h1 * 2" by (auto simp: ht_inv_def)
      from resize_lookup[OF i1 this, of False now k] l1 True show ?thesis
        by (simp add: resize_if_needed_def)
    next
      case False
      with l1 show ?thesis by (simp add: resize_if_needed_def)
    qed
    with False show ?thesis by simp
  qed
  ultimately show ?thesis using None by (simp add: ht'_def)
next
  case (Some i)
  let ?g = "\<lambda>e. e\<lparr>entry_value := v, entry_expiry := x\<rparr>"
  let ?old = "buckets ht ! hash_function H ht k ! i"
  have ko: "entry_key ?old = k" using find_entry_Some[OF inv Some] lookup_key by blast
  have "?g ?old = \<lparr>entry_key = k, entry_value = v, entry_expiry = x\<rparr>" using ko by simp
  moreover have "\<And>e. entry_key (?g e) = entry_key e" by simp
  from update_entry_facts[OF inv Some, of ?g k, OF this]
  have "ht_inv H (update_entry ht (hash_function H ht k) i ?g) \<and>
        ht_lookup (update_entry ht (hash_function H ht k) i ?g) k = Some (?g ?old)" by simp
  ultimately show ?thesis using Some by (simp add: ht'_def)
qed

lemma HashTable_set_facts:
  assumes inv: "ht_inv H ht"
  shows "fst (HashTable_set lazy H now ht k v) = True \<and>
         ht_inv H (snd (HashTable_set lazy H now ht k v)) \<and>
         ht_lookup (snd (HashTable_set lazy H now ht k v)) k =
           Some \<lparr>entry_key = k, entry_value = v, entry_expiry = None\<rparr>"
proof -
  have "\<not> (lazy \<and> is_expired \<lparr>entry_key = k, entry_value = v, entry_expiry = None\<rparr> now)"
    by (simp add: is_expired_def)
  from upsert_facts[OF inv this] show ?thesis
    by (simp add: HashTable_set_def Let_def split: option.splits)
qed

lemma HashTable_set_with_expiry_facts:
  assumes inv: "ht_inv H ht" and ttl: "0 \<le> ttl"
  shows "fst (HashTable_set_with_expiry lazy H now ht k v ttl) = True \<and>
         ht_inv H (snd (HashTable_set_with_expiry lazy H now ht k v ttl)) \<and>
         ht_lookup (snd (HashTable_set_with_expiry lazy H now ht k v ttl)) k =
           Some \<lparr>entry_key = k, entry_value = v, entry_expiry = Some (now + seconds ttl)\<rparr>"
proof -
  have "\<not> (lazy \<and> is_expired
      \<lparr>entry_key = k, entry_value = v, entry_expiry = Some (now + seconds ttl)\<rparr> now)"
    using ttl by (simp add: is_expired_def seconds_def ticks_per_second_def)
  from upsert_facts[OF inv this] show ?thesis
    by (simp add: HashTable_set_with_expiry_def Let_def split: option.splits)
qed

lemma HashTable_get_facts:
  assumes inv: "ht_inv H ht"
  shows "ht_inv H (snd (HashTable_get lazy H now ht k)) \<and>
         fst (HashTable_get lazy H now ht k) =
           (case ht_lookup ht k of
              None \<Rightarrow> None
            | Some e \<Rightarrow> if lazy \<and> is_expired e now then None else Some (entry_value e)) \<and>
         snd (HashTable_get lazy H now ht k) =
           (case ht_lookup ht k of
              None \<Rightarrow> ht
            | Some e \<Rightarrow> if lazy \<and> is_expired e now
                        then snd (HashTable_del H ht k) else ht)"
proof (cases "find_entry ht k (hash_function H ht k)")
  case None
  with find_entry_None[OF inv None] inv show ?thesis
    by (simp add: HashTable_get_def Let_def)
next
  case (Some i)
  from find_entry_Some[OF inv Some]
  have l: "ht_lookup ht k = Some (buckets ht ! hash_function H ht k ! i)" by simp
  from erase_entry_facts[OF inv Some]
  have "ht_inv H (erase_entry ht (hash_function H ht k) i)" by simp
  with Some l inv show ?thesis
    by (auto simp: HashTable_get_def HashTable_del_def Let_def)
qed

lemma HashTable_exists_facts:
  assumes inv: "ht_inv H ht"
  shows "ht_inv H (snd (HashTable_exists lazy H now ht k)) \<and>
         fst (HashTable_exists lazy H now ht k) =
           (case ht_lookup ht k of
              None \<Rightarrow> False
            | Some e \<Rightarrow> \<not> (lazy \<and> is_expired e now)) \<and>
         snd (HashTable_exists lazy H now ht k) =
           (case ht_lookup ht k of
              None \<Rightarrow> ht
            | Some e \<Rightarrow> if lazy \<and> is_expired e now
                        then snd (HashTable_del H ht k) else ht)"
proof (cases "find_entry ht k (hash_function H ht k)")
  case None
  with find_entry_None[OF inv None] inv show ?thesis
    by (simp add: HashTable_exists_def Let_def)
next
  case (Some i)
  from find_entry_Some[OF inv Some]
  have l: "ht_lookup ht k = Some (buckets ht ! hash_function H ht k ! i)" by simp
  from erase_entry_facts[OF inv Some]
  have "ht_inv H (erase_entry ht (hash_function H ht k) i)" by simp
  with Some l inv show ?thesis
    by (auto simp: HashTable_exists_def HashTable_del_def Let_def)
qed

lemma HashTable_del_facts:
  assumes inv: "ht_inv H ht"
  shows "ht_inv H (snd (HashTable_del H ht k)) \<and>
         fst (HashTable_del H ht k) = (ht_lookup ht k \<noteq> None) \<and>
         ht_lookup (snd (HashTable_del H ht k)) k' =
           (if k' = k then None else ht_lookup ht k')"
proof (cases "find_entry ht k (hash_function H ht k)")
  case None
  with find_entry_None[OF inv None] inv show ?thesis
    by (auto simp: HashTable_del_def Let_def)
next
  case (Some i)
  from find_entry_Some[OF inv Some]
  have l: "ht_lookup ht k = Some (buckets ht ! hash_function H ht k ! i)" by simp
  from erase_entry_facts[OF inv Some, of k'] Some l show ?thesis
    by (simp add: HashTable_del_def Let_def)
qed

lemma HashTable_expire_facts:
  assumes inv: "ht_inv H ht"
  shows "ht_inv H (snd (HashTable_expire H now ht k ttl)) \<and>
         fst (HashTable_expire H now ht k ttl) = (ht_lookup ht k \<noteq> None) \<and>
         ht_lookup (snd (HashTable_expire H now ht k ttl)) k' =
           (if k' = k then map_option (\<lambda>e. e\<lparr>entry_expiry := Some (now + seconds ttl)\<rparr>)
                             (ht_lookup ht k)
            else ht_lookup ht k')"
proof (cases "find_entry ht k (hash_function H ht k)")
  case None
  with find_entry_None[OF inv None] inv show ?thesis
    by (auto simp: HashTable_expire_def Let_def)
next
  case (Some i)
  from find_entry_Some[OF inv Some]
  have l: "ht_lookup ht k = Some (buckets ht ! hash_function H ht k ! i)" by simp
  have "\<And>e::Entry. entry_key (e\<lparr>entry_expiry := Some (now + seconds ttl)\<rparr>) = entry_key e"
    by simp
  from update_entry_facts[OF inv Some, of "\<lambda>e. e\<lparr>entry_expiry := Some (now + seconds ttl)\<rparr>" k', OF this]
    Some l show ?thesis
    by (simp add: HashTable_expire_def Let_def)
qed

section \<open>The engine on a well-formed table\<close>

lemma StorageEngine_new_inv: "ht_inv H (hash_table StorageEngine_new)"
  by (simp add: StorageEngine_new_def ht_inv_new)

lemma StorageEngine_get_value:
  assumes inv: "ht_inv H (hash_table s)"
  shows "fst (StorageEngine_get lazy H now s k) =
     (case ht_lookup (hash_table s) k of
        None \<Rightarrow> None
      | Some e \<Rightarrow>
          if lazy \<and> is_expired e now then None
          else (case entry_value e of STRING v \<Rightarrow> Some v | _ \<Rightarrow> None))"
  using HashTable_get_facts[OF inv, of lazy now k]
  by (auto simp: StorageEngine_get_def is_string_def as_string_def
      split: prod.splits option.splits Value.splits)

lemma StorageEngine_get_state:
  assumes inv: "ht_inv H (hash_table s)"
  shows "snd (StorageEngine_get False H now s k) = s"
  using HashTable_get_facts[OF inv, of False now k]
  by (auto simp: StorageEngine_get_def split: prod.splits option.splits)

definition engine_k :: StorageEngine where
  "engine_k = snd (StorageEngine_set False hash0 0 StorageEngine_new ''k'' ''v'')"

lemma engine_k_facts:
  "ht_inv hash0 (hash_table engine_k) \<and>
   ht_lookup (hash_table engine_k) ''k'' =
     Some \<lparr>entry_key = ''k'', entry_value = STRING ''v'', entry_expiry = None\<rparr>"
  using HashTable_set_facts[OF StorageEngine_new_inv,
      where H = hash0 and lazy = False and now = 0 and k = "''k''" and v = "STRING ''v''"]
  by (auto simp: engine_k_def StorageEngine_set_def split: prod.splits)

definition engine_ex :: StorageEngine where
  "engine_ex = snd (StorageEngine_set_ex False hash0 0 0 StorageEngine_new ''k'' ''v'' 10)"

lemma engine_ex_facts:
  "ht_inv hash0 (hash_table engine_ex) \<and>
   ht_lookup (hash_table engine_ex) ''k'' =
     Some \<lparr>entry_key = ''k'', entry_value = STRING ''v'', entry_expiry = Some (seconds 10)\<rparr>"
  using HashTable_set_with_expiry_facts[OF StorageEngine_new_inv,
      where H = hash0 and lazy = False and now = 0 and k = "''k''" and v = "STRING ''v''"
        and ttl = 10]
  by (auto simp: engine_ex_def StorageEngine_set_ex_def split: prod.splits)

section \<open>GET and expiry\<close>

text \<open>
  \<open>HashTable::get\<close> as compiled (\<open>src/data_structures/hash_table.cpp\<close>, the model at
  \<open>lazy = False\<close>) does not look at the expiry of the entry it finds.
\<close>

theorem get_after_expiry_counterexample:
  "(let s1 = snd (StorageEngine_set_ex False hash0 0 0 StorageEngine_new ''k'' ''v'' 10);
        e = \<lparr>entry_key = ''k'', entry_value = STRING ''v'', entry_expiry = Some (seconds 10)\<rparr>;
        r = StorageEngine_get False hash0 (seconds 11) s1 ''k''
    in buckets (hash_table s1) ! hash0 ''k'' = [e] \<and>
       is_expired e (seconds 11) \<and>
       fst r = Some ''v'' \<and>
       StorageEngine_dbsize s1 = 1 \<and>
       StorageEngine_dbsize (snd r) = 1) \<and>
   (let s2 = snd (StorageEngine_zadd False hash0 0 StorageEngine_new ''z'' ''m'' (Num 1))
    in buckets (hash_table s2) ! hash0 ''z'' =
         [\<lparr>entry_key = ''z'', entry_value = SORTED_SET 0, entry_expiry = None\<rparr>] \<and>
       as_string (SORTED_SET 0) = ''[SORTED_SET]'' \<and>
       fst (StorageEngine_get False hash0 0 s2 ''z'') = None)"
  by (simp add: engine_defs hash_table_defs sorted_set_defs ttl_heap_defs Let_def)

text \<open>
  Claim C2, amended. For every key \<open>k\<close>, \<open>get(k)\<close> returns the stored string exactly when
  an entry for \<open>k\<close> is present and holds a string, whether or not the expiry of the entry
  has passed, and returns nothing otherwise (no entry, or a value that is not a string,
  such as a sorted set); \<open>get\<close> deletes nothing: the store, and so \<open>dbsize\<close>, is the same
  before and after, and an expired entry stays until the expiry worker removes it.
\<close>

theorem get_ignores_expiry:
  assumes inv: "ht_inv H (hash_table s)"
  shows "StorageEngine_get False H now s k =
           (case ht_lookup (hash_table s) k of
              None \<Rightarrow> None
            | Some e \<Rightarrow> (case entry_value e of STRING v \<Rightarrow> Some v | _ \<Rightarrow> None),
            s)"
  using StorageEngine_get_value[OF inv, of False now k] StorageEngine_get_state[OF inv, of now k]
  by (simp add: prod_eq_iff split: option.splits)

theorem get_ignores_expiry_witness:
  "ht_inv hash0 (hash_table engine_ex) \<and>
   ht_lookup (hash_table engine_ex) ''k'' =
     Some \<lparr>entry_key = ''k'', entry_value = STRING ''v'', entry_expiry = Some (seconds 10)\<rparr> \<and>
   StorageEngine_get False hash0 (seconds 11) engine_ex ''k'' = (Some ''v'', engine_ex) \<and>
   StorageEngine_get False hash0 (seconds 11) StorageEngine_new ''k'' = (None, StorageEngine_new)"
proof -
  have i: "ht_inv hash0 (hash_table engine_ex)" using engine_ex_facts by simp
  have l: "ht_lookup (hash_table engine_ex) ''k'' =
     Some \<lparr>entry_key = ''k'', entry_value = STRING ''v'', entry_expiry = Some (seconds 10)\<rparr>"
    using engine_ex_facts by simp
  have n: "ht_lookup (hash_table StorageEngine_new) ''k'' = None"
    by (simp add: StorageEngine_new_def lookup_new)
  have a: "StorageEngine_get False hash0 (seconds 11) engine_ex ''k'' = (Some ''v'', engine_ex)"
    using get_ignores_expiry[OF i, of "seconds 11" "''k''"] l by simp
  have b: "StorageEngine_get False hash0 (seconds 11) StorageEngine_new ''k'' =
      (None, StorageEngine_new)"
    using get_ignores_expiry[OF StorageEngine_new_inv,
        where H = hash0 and now = "seconds 11" and k = "''k''"] n by simp
  from i l a b show ?thesis by (intro conjI)
qed

section \<open>TTL\<close>

lemma StorageEngine_exists_live:
  assumes inv: "ht_inv H (hash_table s)"
    and live: "ht_lookup (hash_table s) k = Some e" "\<not> is_expired e now"
  shows "StorageEngine_exists lazy H now s k = (True, s)"
  using HashTable_exists_facts[OF inv, of lazy now k] live
  by (auto simp: StorageEngine_exists_def split: prod.splits)

lemma StorageEngine_exists_absent:
  assumes inv: "ht_inv H (hash_table s)"
    and absent: "ht_lookup (hash_table s) k = None"
  shows "StorageEngine_exists lazy H now s k = (False, s)"
  using HashTable_exists_facts[OF inv, of lazy now k] absent
  by (auto simp: StorageEngine_exists_def split: prod.splits)

lemma StorageEngine_ttl_live:
  assumes inv: "ht_inv H (hash_table s)"
    and live: "ht_lookup (hash_table s) k = Some e" "\<not> is_expired e now"
  shows "StorageEngine_ttl lazy H now s k = (Some 0, s)"
  using HashTable_exists_facts[OF inv, of lazy now k] live
  by (auto simp: StorageEngine_ttl_def split: prod.splits bool.splits)

text \<open>
  Claim C4, amended. \<open>TTL\<close> answers \<open>-2\<close> when the key is absent, and \<open>0\<close> when the key is
  present with an expiry that has not passed: the remaining time is not computed.
\<close>

theorem cmd_ttl_answers_zero:
  assumes inv: "ht_inv H (hash_table s)"
  shows "(ht_lookup (hash_table s) k = None \<longrightarrow>
            cmd_ttl lazy H now [c, k] s = (RInteger (- 2), s)) \<and>
         (\<forall>e t. ht_lookup (hash_table s) k = Some e \<and> entry_expiry e = Some t \<and> now \<le> t \<longrightarrow>
            cmd_ttl lazy H now [c, k] s = (RInteger 0, s))"
proof (intro conjI allI impI)
  assume "ht_lookup (hash_table s) k = None"
  then show "cmd_ttl lazy H now [c, k] s = (RInteger (- 2), s)"
    by (simp add: cmd_ttl_def StorageEngine_exists_absent[OF inv])
next
  fix e t
  assume a: "ht_lookup (hash_table s) k = Some e \<and> entry_expiry e = Some t \<and> now \<le> t"
  then have l: "ht_lookup (hash_table s) k = Some e" and x: "\<not> is_expired e now"
    by (simp_all add: is_expired_def)
  show "cmd_ttl lazy H now [c, k] s = (RInteger 0, s)"
    by (simp add: cmd_ttl_def StorageEngine_exists_live[OF inv l x]
        StorageEngine_ttl_live[OF inv l x])
qed

theorem cmd_ttl_answers_zero_witness:
  "ht_inv hash0 (hash_table engine_ex) \<and>
   ht_lookup (hash_table engine_ex) ''k'' =
     Some \<lparr>entry_key = ''k'', entry_value = STRING ''v'', entry_expiry = Some (seconds 10)\<rparr> \<and>
   seconds 3 \<le> seconds 10 \<and>
   cmd_ttl False hash0 (seconds 3) [''TTL'', ''k''] engine_ex = (RInteger 0, engine_ex) \<and>
   ht_lookup (hash_table StorageEngine_new) ''k'' = None \<and>
   cmd_ttl False hash0 (seconds 3) [''TTL'', ''k''] StorageEngine_new =
     (RInteger (- 2), StorageEngine_new)"
proof -
  let ?e = "\<lparr>entry_key = ''k'', entry_value = STRING ''v'', entry_expiry = Some (seconds 10)\<rparr>"
  have i: "ht_inv hash0 (hash_table engine_ex)" using engine_ex_facts by simp
  have l: "ht_lookup (hash_table engine_ex) ''k'' = Some ?e" using engine_ex_facts by simp
  have t: "seconds 3 \<le> seconds 10" by (simp add: seconds_def ticks_per_second_def)
  have n: "ht_lookup (hash_table StorageEngine_new) ''k'' = None"
    by (simp add: StorageEngine_new_def lookup_new)
  from cmd_ttl_answers_zero[OF i, of "''k''" False "seconds 3" "''TTL''"]
  have "\<forall>e t. ht_lookup (hash_table engine_ex) ''k'' = Some e \<and> entry_expiry e = Some t \<and>
           seconds 3 \<le> t \<longrightarrow>
         cmd_ttl False hash0 (seconds 3) [''TTL'', ''k''] engine_ex = (RInteger 0, engine_ex)"
    by (elim conjE)
  then have a: "cmd_ttl False hash0 (seconds 3) [''TTL'', ''k''] engine_ex = (RInteger 0, engine_ex)"
    using l t by simp
  from cmd_ttl_answers_zero[OF StorageEngine_new_inv,
      where H = hash0 and k = "''k''" and lazy = False and now = "seconds 3" and c = "''TTL''"] n
  have b: "cmd_ttl False hash0 (seconds 3) [''TTL'', ''k''] StorageEngine_new =
     (RInteger (- 2), StorageEngine_new)" by simp
  from i l t a n b show ?thesis by (intro conjI)
qed

section \<open>Commands on a key of the other variant\<close>

lemma get_sorted_set_on_string:
  assumes inv: "ht_inv H (hash_table s)"
    and live: "ht_lookup (hash_table s) k = Some e" "\<not> (lazy \<and> is_expired e now)"
    and str: "entry_value e = STRING v"
  shows "get_sorted_set lazy H now s k create = (None, s)"
  using HashTable_get_facts[OF inv, of lazy now k] live str
  by (auto simp: get_sorted_set_def split: prod.splits option.splits Value.splits)

lemma get_sorted_set_found:
  assumes inv: "ht_inv H (hash_table s)"
    and live: "ht_lookup (hash_table s) k = Some e" "\<not> (lazy \<and> is_expired e now)"
    and zs: "entry_value e = SORTED_SET p"
  shows "get_sorted_set lazy H now s k create = (Some p, s)"
  using HashTable_get_facts[OF inv, of lazy now k] live zs
  by (auto simp: get_sorted_set_def split: prod.splits option.splits Value.splits)

lemma get_sorted_set_create:
  assumes inv: "ht_inv H (hash_table s)"
    and absent: "ht_lookup (hash_table s) k = None"
  shows "get_sorted_set lazy H now s k True =
     (Some (next_ptr s),
      s\<lparr>hash_table := snd (HashTable_set lazy H now (hash_table s) k (SORTED_SET (next_ptr s))),
        sorted_sets := (sorted_sets s)(next_ptr s \<mapsto> SortedSet_new),
        next_ptr := next_ptr s + 1\<rparr>)"
  using HashTable_get_facts[OF inv, of lazy now k] absent
  by (auto simp: get_sorted_set_def Let_def split: prod.splits option.splits)

lemma StorageEngine_zadd_found:
  assumes inv: "ht_inv H (hash_table s)"
    and live: "ht_lookup (hash_table s) k = Some e" "\<not> (lazy \<and> is_expired e now)"
    and zs: "entry_value e = SORTED_SET p" and z: "sorted_sets s p = Some z"
  shows "StorageEngine_zadd lazy H now s k m sc =
     (fst (SortedSet_add z m sc),
      s\<lparr>sorted_sets := (sorted_sets s)(p \<mapsto> snd (SortedSet_add z m sc))\<rparr>)"
  by (simp add: StorageEngine_zadd_def get_sorted_set_found[OF inv live zs] z
      split: prod.splits)

lemma StorageEngine_zadd_create:
  assumes inv: "ht_inv H (hash_table s)"
    and absent: "ht_lookup (hash_table s) k = None"
  shows "StorageEngine_zadd lazy H now s k m sc =
     (True,
      s\<lparr>hash_table := snd (HashTable_set lazy H now (hash_table s) k (SORTED_SET (next_ptr s))),
        sorted_sets := (sorted_sets s)(next_ptr s \<mapsto> snd (SortedSet_add SortedSet_new m sc)),
        next_ptr := next_ptr s + 1\<rparr>)"
  by (simp add: StorageEngine_zadd_def get_sorted_set_create[OF inv absent]
      SortedSet_add_def SortedSet_new_def split: prod.splits)

definition engine_z :: StorageEngine where
  "engine_z = snd (StorageEngine_zadd False hash0 0 StorageEngine_new ''z'' ''m'' (Num 1))"

lemma engine_z_facts:
  "ht_inv hash0 (hash_table engine_z) \<and>
   ht_lookup (hash_table engine_z) ''z'' =
     Some \<lparr>entry_key = ''z'', entry_value = SORTED_SET 0, entry_expiry = None\<rparr> \<and>
   sorted_sets engine_z 0 = Some (snd (SortedSet_add SortedSet_new ''m'' (Num 1)))"
proof -
  have n: "ht_lookup (hash_table StorageEngine_new) ''z'' = None"
    by (simp add: StorageEngine_new_def lookup_new)
  have p: "next_ptr StorageEngine_new = 0" by (simp add: StorageEngine_new_def)
  from HashTable_set_facts[OF StorageEngine_new_inv,
      where H = hash0 and lazy = False and now = 0 and k = "''z''" and v = "SORTED_SET 0"]
  show ?thesis
    by (simp add: engine_z_def StorageEngine_zadd_create[OF StorageEngine_new_inv n] p)
qed

text \<open>The sorted-set operations of the engine on a key that holds a string.\<close>

lemma engine_on_string:
  assumes inv: "ht_inv H (hash_table s)"
    and live: "ht_lookup (hash_table s) k = Some e" "\<not> (lazy \<and> is_expired e now)"
    and str: "entry_value e = STRING v"
  shows "StorageEngine_zadd lazy H now s k m sc = (False, s)"
    and "StorageEngine_zrem lazy H now s k m = (False, s)"
    and "StorageEngine_zscore lazy H now s k m = (None, s)"
    and "StorageEngine_zrank lazy H now s k m = (None, s)"
    and "StorageEngine_zcard lazy H now s k = (0, s)"
    and "StorageEngine_zrange lazy H now s k start stop = (Some [], s)"
    and "StorageEngine_zrangebyscore lazy H now s k lo hi = ([], s)"
  by (simp_all add: StorageEngine_zadd_def StorageEngine_zrem_def StorageEngine_zscore_def
      StorageEngine_zrank_def StorageEngine_zcard_def StorageEngine_zrange_def
      StorageEngine_zrangebyscore_def get_sorted_set_on_string[OF inv live str])

text \<open>Every score token of the pairs \<open>score member ...\<close> parses.\<close>

fun scores_parse :: "(string \<Rightarrow> score option) \<Rightarrow> string list \<Rightarrow> bool" where
  "scores_parse stod (sc # member # rest) = (stod sc \<noteq> None \<and> scores_parse stod rest)"
| "scores_parse stod rest = True"

lemma zadd_loop_on_string:
  assumes inv: "ht_inv H (hash_table s)"
    and live: "ht_lookup (hash_table s) k = Some e" "\<not> (lazy \<and> is_expired e now)"
    and str: "entry_value e = STRING v"
  shows "zadd_loop stod lazy H now k toks added s =
     (if scores_parse stod toks then RInteger added
      else RError ''ERR value is not a valid float'', s)"
proof (induction toks rule: induct_list012)
  case 1 show ?case by simp
next
  case (2 x) show ?case by simp
next
  case (3 sc member rest)
  then show ?case
    by (cases "stod sc") (simp_all add: engine_on_string(1)[OF inv live str])
qed

lemma zrem_loop_on_string:
  assumes inv: "ht_inv H (hash_table s)"
    and live: "ht_lookup (hash_table s) k = Some e" "\<not> (lazy \<and> is_expired e now)"
    and str: "entry_value e = STRING v"
  shows "zrem_loop lazy H now k members removed s = (RInteger removed, s)"
  by (induction members) (simp_all add: engine_on_string(2)[OF inv live str])



section \<open>ZADD with a NaN score\<close>

text \<open>
  Claim C8 (a \<open>ZADD\<close> with a NaN score is rejected as an error and leaves the set
  unchanged). \<open>cmd_zadd\<close> rejects a token that \<open>std::stod\<close> cannot parse, but \<open>std::stod\<close>
  parses \<open>nan\<close>, and nothing tests the score after that. After \<open>ZADD s 1 a\<close>, the command
  \<open>ZADD s nan x\<close> answers the integer \<open>1\<close>; the size of the set goes from 1 to 2 and the
  score of \<open>x\<close> is NaN. In the ordered index NaN is neither less nor greater than the key
  of the root, so \<open>insert_node\<close> takes the branch for a key that already exists and
  overwrites the member of the entry of \<open>a\<close>: the index holds the single entry \<open>1 \<rightarrow> x\<close>,
  and \<open>rank\<close> finds neither \<open>a\<close> nor \<open>x\<close>.
\<close>

theorem zadd_nan_corrupts_index:
  "(let r1 = cmd_zadd stod0 False hash0 0 [''ZADD'', ''s'', ''1'', ''a''] StorageEngine_new;
        r2 = cmd_zadd stod0 False hash0 0 [''ZADD'', ''s'', ''nan'', ''x''] (snd r1)
    in stod0 ''nan'' = Some NaN \<and>
       fst r2 = RInteger 1 \<and>
       fst (StorageEngine_zcard False hash0 0 (snd r1) ''s'') = 1 \<and>
       fst (StorageEngine_zcard False hash0 0 (snd r2) ''s'') = 2 \<and>
       fst (StorageEngine_zscore False hash0 0 (snd r2) ''s'' ''a'') = Some (Num 1) \<and>
       fst (StorageEngine_zscore False hash0 0 (snd r2) ''s'' ''x'') = Some NaN \<and>
       map_option (AVLTree_get_all \<circ> score_tree) (sorted_sets (snd r1) 0) =
         Some [(Num 1, ''a'')] \<and>
       map_option (AVLTree_get_all \<circ> score_tree) (sorted_sets (snd r2) 0) =
         Some [(Num 1, ''x'')] \<and>
       fst (StorageEngine_zrank False hash0 0 (snd r1) ''s'' ''a'') = Some 0 \<and>
       fst (StorageEngine_zrank False hash0 0 (snd r2) ''s'' ''a'') = None \<and>
       fst (StorageEngine_zrank False hash0 0 (snd r2) ''s'' ''x'') = None) \<and>
   (let r1 = cmd_zadd stod0 True hash0 0 [''ZADD'', ''s'', ''1'', ''a''] StorageEngine_new;
        r2 = cmd_zadd stod0 True hash0 0 [''ZADD'', ''s'', ''nan'', ''x''] (snd r1)
    in fst r2 = RInteger 1 \<and>
       fst (StorageEngine_zcard True hash0 0 (snd r1) ''s'') = 1 \<and>
       fst (StorageEngine_zcard True hash0 0 (snd r2) ''s'') = 2 \<and>
       fst (StorageEngine_zscore True hash0 0 (snd r2) ''s'' ''a'') = Some (Num 1) \<and>
       fst (StorageEngine_zscore True hash0 0 (snd r2) ''s'' ''x'') = Some NaN \<and>
       map_option (AVLTree_get_all \<circ> score_tree) (sorted_sets (snd r2) 0) =
         Some [(Num 1, ''x'')] \<and>
       fst (StorageEngine_zrank True hash0 0 (snd r2) ''s'' ''a'') = None \<and>
       fst (StorageEngine_zrank True hash0 0 (snd r2) ''s'' ''x'') = None)"
  by (simp add: engine_defs hash_table_defs sorted_set_defs cmd_zadd_def stod0_def
      StorageEngine_zscore_def StorageEngine_zrank_def Let_def)

section \<open>The structural invariant of the AVL tree\<close>

text \<open>
  The keys of a tree in order, the number of its nodes, and the three conditions on
  every node: the keys of the left subtree are less than the key of the node and those of
  the right subtree greater (by \<open>operator<\<close> of the key type); the recorded height is one
  more than the larger of the heights of the children; the balance factor is -1, 0 or 1.
\<close>

fun node_keys :: "node \<Rightarrow> score list" where
  "node_keys Null = []"
| "node_keys (Node k v h l r) = node_keys l @ k # node_keys r"

fun count_nodes :: "node \<Rightarrow> nat" where
  "count_nodes Null = 0"
| "count_nodes (Node k v h l r) = count_nodes l + 1 + count_nodes r"

fun bst :: "node \<Rightarrow> bool" where
  "bst Null = True"
| "bst (Node k v h l r) =
     (list_all (\<lambda>x. score_lt x k) (node_keys l) \<and> list_all (\<lambda>x. score_lt k x) (node_keys r) \<and>
      bst l \<and> bst r)"

fun heights_ok :: "node \<Rightarrow> bool" where
  "heights_ok Null = True"
| "heights_ok (Node k v h l r) =
     (h = 1 + max (height l) (height r) \<and> heights_ok l \<and> heights_ok r)"

fun balanced :: "node \<Rightarrow> bool" where
  "balanced Null = True"
| "balanced (Node k v h l r) =
     (balance_factor (Node k v h l r) \<in> {- 1, 0, 1} \<and> balanced l \<and> balanced r)"

definition avl_inv :: "AVLTree \<Rightarrow> bool" where
  "avl_inv t \<longleftrightarrow>
     bst (avl_root t) \<and> heights_ok (avl_root t) \<and> balanced (avl_root t) \<and>
     AVLTree_size t = count_nodes (avl_root t)"

datatype avl_op = Insert score string | Remove score

fun apply_op :: "AVLTree \<Rightarrow> avl_op \<Rightarrow> AVLTree" where
  "apply_op t (Insert k v) = AVLTree_insert t k v"
| "apply_op t (Remove k) = snd (AVLTree_remove t k)"

subsection \<open>The order of the scores\<close>

lemma score_lt_trans: "score_lt a b \<Longrightarrow> score_lt b c \<Longrightarrow> score_lt a c"
  by (cases a; cases b; cases c) simp_all

lemma score_lt_irrefl [simp]: "\<not> score_lt a a"
  by (cases a) simp_all

lemma score_gt_irrefl [simp]: "\<not> score_gt a a"
  by (simp add: score_gt_def)

subsection \<open>Rotations keep the keys in order\<close>

lemma node_keys_update_height [simp]: "node_keys (update_height t) = node_keys t"
  by (cases t) simp_all

lemma node_keys_rotate_right [simp]: "node_keys (rotate_right t) = node_keys t"
  by (cases t rule: rotate_right.cases) simp_all

lemma node_keys_rotate_left [simp]: "node_keys (rotate_left t) = node_keys t"
  by (cases t rule: rotate_left.cases) simp_all

lemma node_keys_balance [simp]: "node_keys (balance t) = node_keys t"
  by (cases t) (simp_all add: Let_def)

lemma count_nodes_update_height [simp]: "count_nodes (update_height t) = count_nodes t"
  by (cases t) simp_all

lemma count_nodes_rotate_right [simp]: "count_nodes (rotate_right t) = count_nodes t"
  by (cases t rule: rotate_right.cases) simp_all

lemma count_nodes_rotate_left [simp]: "count_nodes (rotate_left t) = count_nodes t"
  by (cases t rule: rotate_left.cases) simp_all

lemma count_nodes_balance [simp]: "count_nodes (balance t) = count_nodes t"
  by (cases t) (simp_all add: Let_def)

lemma bst_sorted: "bst t \<longleftrightarrow> sorted_wrt score_lt (node_keys t)"
proof (induction t)
  case Null
  show ?case by simp
next
  case (Node k v h l r)
  have "\<And>x y. x \<in> set (node_keys l) \<Longrightarrow> score_lt x k \<Longrightarrow> score_lt k y \<Longrightarrow> score_lt x y"
    by (blast intro: score_lt_trans)
  then show ?case using Node
    by (auto simp: sorted_wrt_append list_all_iff)
qed

lemma bst_balance [simp]: "bst (balance t) = bst t"
  by (simp add: bst_sorted)

subsection \<open>Heights and balance\<close>

definition avl :: "node \<Rightarrow> bool" where
  "avl t \<longleftrightarrow> heights_ok t \<and> balanced t"

lemma avl_Null [simp]: "avl Null"
  by (simp add: avl_def)

lemma avl_Node [simp]:
  "avl (Node k v h l r) \<longleftrightarrow>
     h = 1 + max (height l) (height r) \<and> height l - height r \<in> {- 1, 0, 1} \<and> avl l \<and> avl r"
  by (auto simp: avl_def)

lemma height_nonneg: "avl t \<Longrightarrow> 0 \<le> height t"
  by (induction t) auto

lemma height_pos: "avl (Node k v h l r) \<Longrightarrow> 1 \<le> h"
  using height_nonneg[of l] height_nonneg[of r] by auto

lemma height_zero: "avl t \<Longrightarrow> height t = 0 \<longleftrightarrow> t = Null"
  using height_pos by (cases t) fastforce+

lemma balance_near:
  assumes "avl l" "avl r" "height l - height r \<in> {- 1, 0, 1}"
  shows "balance (Node k v h l r) = Node k v (1 + max (height l) (height r)) l r"
  using assms by (auto simp: Let_def)

lemma balance_left_heavy:
  assumes l: "avl l" and r: "avl r" and d: "height l = height r + 2"
  shows "avl (balance (Node k v h l r)) \<and>
         (height (balance (Node k v h l r)) = height l \<or>
          height (balance (Node k v h l r)) = height l + 1)"
proof (cases l)
  case Null
  with d height_nonneg[OF r] show ?thesis by simp
next
  case (Node lk lv lh ll lr)
  note L = Node
  from l L have all: "avl ll" and alr: "avl lr" and lh: "lh = height r + 2"
    and lh': "lh = 1 + max (height ll) (height lr)"
    and ld: "height ll - height lr \<in> {- 1, 0, 1}" using d by simp_all
  show ?thesis
  proof (cases "height ll < height lr")
    case False
    with lh lh' ld have hll: "height ll = height r + 1" by auto
    from False lh lh' ld consider "height lr = height r" | "height lr = height r + 1" by fastforce
    then show ?thesis
    proof cases
      case 1
      with hll lh all alr r show ?thesis by (simp add: L Let_def)
    next
      case 2
      with hll lh all alr r show ?thesis by (simp add: L Let_def)
    qed
  next
    case True
    with lh lh' ld have hlr: "height lr = height r + 1" and hll: "height ll = height r" by auto
    with height_nonneg[OF r] height_zero[OF alr] obtain mk mv mh ml mr
      where M: "lr = Node mk mv mh ml mr" by (cases lr) auto
    from alr M hlr have aml: "avl ml" and amr: "avl mr" and mh: "mh = height r + 1"
      and mh': "mh = 1 + max (height ml) (height mr)"
      and md: "height ml - height mr \<in> {- 1, 0, 1}" by simp_all
    from mh mh' md consider "height ml = height r" "height mr = height r"
      | "height ml = height r" "height mr = height r - 1"
      | "height ml = height r - 1" "height mr = height r" by fastforce
    then show ?thesis
    proof cases
      case 1
      with hll lh mh all aml amr r show ?thesis by (simp add: L M Let_def)
    next
      case 2
      with hll lh mh all aml amr r show ?thesis by (simp add: L M Let_def)
    next
      case 3
      with hll lh mh all aml amr r show ?thesis by (simp add: L M Let_def)
    qed
  qed
qed

lemma balance_right_heavy:
  assumes l: "avl l" and r: "avl r" and d: "height r = height l + 2"
  shows "avl (balance (Node k v h l r)) \<and>
         (height (balance (Node k v h l r)) = height r \<or>
          height (balance (Node k v h l r)) = height r + 1)"
proof (cases r)
  case Null
  with d height_nonneg[OF l] show ?thesis by simp
next
  case (Node rk rv rh rl rr)
  note R = Node
  from r R have arl: "avl rl" and arr: "avl rr" and rh: "rh = height l + 2"
    and rh': "rh = 1 + max (height rl) (height rr)"
    and rd: "height rl - height rr \<in> {- 1, 0, 1}" using d by simp_all
  show ?thesis
  proof (cases "height rl > height rr")
    case False
    with rh rh' rd have hrr: "height rr = height l + 1" by auto
    from False rh rh' rd consider "height rl = height l" | "height rl = height l + 1" by fastforce
    then show ?thesis
    proof cases
      case 1
      with hrr rh arl arr l show ?thesis by (simp add: R Let_def)
    next
      case 2
      with hrr rh arl arr l show ?thesis by (simp add: R Let_def)
    qed
  next
    case True
    with rh rh' rd have hrl: "height rl = height l + 1" and hrr: "height rr = height l" by auto
    with height_nonneg[OF l] height_zero[OF arl] obtain mk mv mh ml mr
      where M: "rl = Node mk mv mh ml mr" by (cases rl) auto
    from arl M hrl have aml: "avl ml" and amr: "avl mr" and mh: "mh = height l + 1"
      and mh': "mh = 1 + max (height ml) (height mr)"
      and md: "height ml - height mr \<in> {- 1, 0, 1}" by simp_all
    from mh mh' md consider "height ml = height l" "height mr = height l"
      | "height ml = height l" "height mr = height l - 1"
      | "height ml = height l - 1" "height mr = height l" by fastforce
    then show ?thesis
    proof cases
      case 1
      with hrr rh mh arr aml amr l show ?thesis by (simp add: R M Let_def)
    next
      case 2
      with hrr rh mh arr aml amr l show ?thesis by (simp add: R M Let_def)
    next
      case 3
      with hrr rh mh arr aml amr l show ?thesis by (simp add: R M Let_def)
    qed
  qed
qed

text \<open>
  \<open>balance\<close> on two AVL subtrees whose heights differ by at most two gives an AVL tree,
  of height one more than the higher subtree, or of the height of the higher subtree
  when a rotation was needed.
\<close>

lemma avl_balance:
  assumes l: "avl l" and r: "avl r" and d: "\<bar>height l - height r\<bar> \<le> 2"
  shows "avl (balance (Node k v h l r))"
    and "height (balance (Node k v h l r)) = 1 + max (height l) (height r) \<or>
         (\<bar>height l - height r\<bar> = 2 \<and>
          height (balance (Node k v h l r)) = max (height l) (height r))"
proof -
  consider "height l - height r \<in> {- 1, 0, 1}" | "height l = height r + 2"
    | "height r = height l + 2" using d by fastforce
  then have "avl (balance (Node k v h l r)) \<and>
     (height (balance (Node k v h l r)) = 1 + max (height l) (height r) \<or>
         (\<bar>height l - height r\<bar> = 2 \<and>
          height (balance (Node k v h l r)) = max (height l) (height r)))"
  proof cases
    case 1
    then show ?thesis using l r by (simp add: balance_near[OF l r 1] del: balance.simps)
  next
    case 2
    from balance_left_heavy[OF l r 2, of k v h] 2 show ?thesis
      by (auto simp del: balance.simps)
  next
    case 3
    from balance_right_heavy[OF l r 3, of k v h] 3 show ?thesis
      by (auto simp del: balance.simps)
  qed
  then show "avl (balance (Node k v h l r))"
    and "height (balance (Node k v h l r)) = 1 + max (height l) (height r) \<or>
         (\<bar>height l - height r\<bar> = 2 \<and>
          height (balance (Node k v h l r)) = max (height l) (height r))"
    by blast+
qed

subsection \<open>Insertion and removal keep the heights and the balance\<close>

lemma avl_insert_node:
  assumes "avl t"
  shows "avl (fst (insert_node t k v sz)) \<and>
         (height (fst (insert_node t k v sz)) = height t \<or>
          height (fst (insert_node t k v sz)) = height t + 1)"
  using assms
proof (induction t arbitrary: sz)
  case Null
  show ?case by simp
next
  case (Node k0 v0 h l r)
  from Node.prems have al: "avl l" and ar: "avl r"
    and d: "height l - height r \<in> {- 1, 0, 1}" and h: "h = 1 + max (height l) (height r)"
    by simp_all
  show ?case
  proof (cases "score_lt k k0")
    case True
    obtain l' sz' where i: "insert_node l k v sz = (l', sz')" by (cases "insert_node l k v sz")
    from Node.IH(1)[OF al, of sz] i have al': "avl l'"
      and hl': "height l' = height l \<or> height l' = height l + 1" by simp_all
    have d': "\<bar>height l' - height r\<bar> \<le> 2" using d hl' by auto
    from avl_balance[OF al' ar d', of k0 v0 h] d hl' h True i show ?thesis
      by (auto simp del: balance.simps)
  next
    case False
    show ?thesis
    proof (cases "score_gt k k0")
      case True
      obtain r' sz' where i: "insert_node r k v sz = (r', sz')" by (cases "insert_node r k v sz")
      from Node.IH(2)[OF ar, of sz] i have ar': "avl r'"
        and hr': "height r' = height r \<or> height r' = height r + 1" by simp_all
      have d': "\<bar>height l - height r'\<bar> \<le> 2" using d hr' by auto
      from avl_balance[OF al ar' d', of k0 v0 h] d hr' h True False i show ?thesis
        by (auto simp del: balance.simps)
    next
      case g: False
      with False Node.prems show ?thesis by simp
    qed
  qed
qed

lemma avl_remove_node:
  assumes "avl t"
  shows "avl (fst (remove_node t k sz)) \<and>
         (height (fst (remove_node t k sz)) = height t \<or>
          height (fst (remove_node t k sz)) = height t - 1)"
  using assms
proof (induction t arbitrary: k sz)
  case Null
  show ?case by simp
next
  case (Node k0 v0 h l r)
  from Node.prems have al: "avl l" and ar: "avl r"
    and d: "height l - height r \<in> {- 1, 0, 1}" and h: "h = 1 + max (height l) (height r)"
    by simp_all
  have right: "avl (balance (Node k1 v1 h l r')) \<and>
      (height (balance (Node k1 v1 h l r')) = h \<or> height (balance (Node k1 v1 h l r')) = h - 1)"
    if r': "r' = fst (remove_node r k' sz')" for r' k' sz' k1 v1
  proof -
    from Node.IH(2)[OF ar, of k' sz'] r' have ar': "avl r'"
      and hr': "height r' = height r \<or> height r' = height r - 1" by simp_all
    have d': "\<bar>height l - height r'\<bar> \<le> 2" using d hr' by auto
    from avl_balance[OF al ar' d', of k1 v1 h] d hr' h show ?thesis
      by (auto simp del: balance.simps)
  qed
  show ?case
  proof (cases "score_lt k k0")
    case True
    obtain l' sz' where i: "remove_node l k sz = (l', sz')" by (cases "remove_node l k sz")
    from Node.IH(1)[OF al, of k sz] i have al': "avl l'"
      and hl': "height l' = height l \<or> height l' = height l - 1" by simp_all
    have d': "\<bar>height l' - height r\<bar> \<le> 2" using d hl' by auto
    from avl_balance[OF al' ar d', of k0 v0 h] d hl' h True i show ?thesis
      by (auto simp del: balance.simps)
  next
    case False
    show ?thesis
    proof (cases "score_gt k k0")
      case True
      obtain r' sz' where i: "remove_node r k sz = (r', sz')" by (cases "remove_node r k sz")
      from right[of r' k sz k0 v0] i True False show ?thesis
        by (simp del: balance.simps)
    next
      case g: False
      consider "l = Null" "r = Null" | "l = Null" "r \<noteq> Null" | "l \<noteq> Null" "r = Null"
        | "l \<noteq> Null" "r \<noteq> Null" by blast
      then show ?thesis
      proof cases
        case 1
        with False g h show ?thesis by simp
      next
        case 2
        with False g h d ar height_nonneg[OF ar] show ?thesis by auto
      next
        case 3
        with False g h d al height_nonneg[OF al] show ?thesis by auto
      next
        case 4
        obtain r' sz' where i: "remove_node r (node_key (find_min r)) sz = (r', sz')"
          by (cases "remove_node r (node_key (find_min r)) sz")
        from right[of r' "node_key (find_min r)" sz "node_key (find_min r)"
            "node_value (find_min r)"] i 4 False g show ?thesis
          by (simp add: Let_def del: balance.simps)
      qed
    qed
  qed
qed

subsection \<open>The node count\<close>

lemma size_insert_node:
  "snd (insert_node t k v sz) + count_nodes t = sz + count_nodes (fst (insert_node t k v sz))"
proof (induction t arbitrary: sz)
  case Null
  show ?case by simp
next
  case (Node k0 v0 h l r)
  show ?case using Node.IH(1)[of sz] Node.IH(2)[of sz]
    by (auto simp del: balance.simps split: prod.splits)
qed

lemma size_remove_node:
  "count_nodes t \<le> sz \<Longrightarrow>
   snd (remove_node t k sz) + count_nodes t = sz + count_nodes (fst (remove_node t k sz))"
proof (induction t arbitrary: k sz)
  case Null
  show ?case by simp
next
  case (Node k0 v0 h l r)
  from Node.prems have l: "count_nodes l \<le> sz" and r: "count_nodes r \<le> sz"
    and p: "0 < sz" by simp_all
  show ?case
    using Node.IH(1)[OF l, of k] Node.IH(2)[OF r, of k]
      Node.IH(2)[OF r, of "node_key (find_min r)"] p
    by (auto simp: size_dec_def Let_def simp del: balance.simps split: prod.splits)
qed

subsection \<open>The search-tree order\<close>

lemma keys_insert_node:
  "set (node_keys (fst (insert_node t k v sz))) \<subseteq> insert k (set (node_keys t))"
proof (induction t arbitrary: sz)
  case Null
  show ?case by simp
next
  case (Node k0 v0 h l r)
  show ?case using Node.IH(1)[of sz] Node.IH(2)[of sz]
    by (auto simp del: balance.simps split: prod.splits)
qed

lemma find_min_key:
  "t \<noteq> Null \<Longrightarrow> node_keys t \<noteq> [] \<and> node_key (find_min t) = hd (node_keys t)"
  by (induction t) auto

lemma find_min_key_mem: "t \<noteq> Null \<Longrightarrow> node_key (find_min t) \<in> set (node_keys t)"
  using find_min_key[of t] by (metis list.set_sel(1))

lemma remove_min_keys:
  "bst t \<Longrightarrow> t \<noteq> Null \<Longrightarrow>
   node_keys (fst (remove_node t (node_key (find_min t)) sz)) = tl (node_keys t)"
proof (induction t arbitrary: sz)
  case Null
  then show ?case by simp
next
  case (Node k0 v0 h l r)
  show ?case
  proof (cases "l = Null")
    case True
    then show ?thesis by simp
  next
    case False
    from Node.prems have bl: "bst l" and lt: "\<forall>x\<in>set (node_keys l). score_lt x k0"
      by (simp_all add: list_all_iff)
    from find_min_key_mem[OF False] lt have m: "score_lt (node_key (find_min l)) k0" by blast
    from find_min_key[OF False] have ne: "node_keys l \<noteq> []" by simp
    from Node.IH(1)[OF bl False, of sz] m False ne show ?thesis
      by (simp add: case_prod_beta del: balance.simps)
  qed
qed

lemma keys_remove_node:
  "set (node_keys (fst (remove_node t k sz))) \<subseteq> set (node_keys t)"
proof (induction t arbitrary: k sz)
  case Null
  show ?case by simp
next
  case (Node k0 v0 h l r)
  show ?case
    using Node.IH(1)[of k sz] Node.IH(2)[of k sz]
      Node.IH(2)[of "node_key (find_min r)" sz] find_min_key_mem[of r]
    by (auto simp: Let_def simp del: balance.simps split: prod.splits)
qed

lemma bst_insert_node: "bst t \<Longrightarrow> bst (fst (insert_node t k v sz))"
proof (induction t arbitrary: sz)
  case Null
  show ?case by simp
next
  case (Node k0 v0 h l r)
  from Node.prems have bl: "bst l" and br: "bst r" by simp_all
  show ?case
    using Node.prems Node.IH(1)[OF bl, of sz] Node.IH(2)[OF br, of sz]
      keys_insert_node[of l k v sz] keys_insert_node[of r k v sz]
    by (auto simp: list_all_iff score_gt_def simp del: balance.simps split: prod.splits)
qed

lemma bst_remove_node: "bst t \<Longrightarrow> bst (fst (remove_node t k sz))"
proof (induction t arbitrary: k sz)
  case Null
  show ?case by simp
next
  case (Node k0 v0 h l r)
  from Node.prems have bl: "bst l" and br: "bst r"
    and lt: "\<forall>x\<in>set (node_keys l). score_lt x k0"
    and gt: "\<forall>x\<in>set (node_keys r). score_lt k0 x"
    by (simp_all add: list_all_iff)
  show ?case
  proof (cases "score_lt k k0")
    case True
    with Node.IH(1)[OF bl, of k sz] keys_remove_node[of l k sz] br lt gt show ?thesis
      by (auto simp: list_all_iff simp del: balance.simps split: prod.splits)
  next
    case False
    show ?thesis
    proof (cases "score_gt k k0")
      case True
      with False Node.IH(2)[OF br, of k sz] keys_remove_node[of r k sz] bl lt gt show ?thesis
        by (auto simp: list_all_iff simp del: balance.simps split: prod.splits)
    next
      case g: False
      show ?thesis
      proof (cases "l = Null \<or> r = Null")
        case True
        with False g bl br show ?thesis by auto
      next
        case both: False
        then have rn: "r \<noteq> Null" and ln: "l \<noteq> Null" by simp_all
        let ?m = "node_key (find_min r)"
        let ?r' = "fst (remove_node r ?m sz)"
        from find_min_key[OF rn] have ks: "node_keys r = ?m # tl (node_keys r)" by simp
        have keys': "node_keys ?r' = tl (node_keys r)" using br rn by (rule remove_min_keys)
        have "sorted_wrt score_lt (node_keys l @ k0 # node_keys r)"
          using Node.prems by (simp add: bst_sorted)
        then have "sorted_wrt score_lt (node_keys l @ k0 # ?m # tl (node_keys r))"
          using ks by simp
        then have "sorted_wrt score_lt (node_keys l @ ?m # tl (node_keys r))"
          by (auto simp: sorted_wrt_append intro: score_lt_trans)
        then have "bst (Node ?m (node_value (find_min r)) h l ?r')"
          by (simp add: bst_sorted keys')
        with False g both show ?thesis
          by (simp add: Let_def case_prod_beta del: balance.simps bst.simps)
      qed
    qed
  qed
qed

subsection \<open>The invariant holds after every sequence of operations\<close>

lemma avl_inv_new: "avl_inv AVLTree_new"
  by (simp add: avl_inv_def AVLTree_new_def AVLTree_size_def)

lemma avl_inv_insert:
  assumes "avl_inv t"
  shows "avl_inv (AVLTree_insert t k v)"
proof -
  from assms have b: "bst (avl_root t)" and a: "avl (avl_root t)"
    and s: "avl_size t = count_nodes (avl_root t)"
    by (simp_all add: avl_inv_def avl_def AVLTree_size_def)
  from bst_insert_node[OF b, of k v "avl_size t"] avl_insert_node[OF a, of k v "avl_size t"]
    size_insert_node[of "avl_root t" k v "avl_size t"] s
  show ?thesis
    by (simp add: avl_inv_def avl_def AVLTree_size_def AVLTree_insert_def case_prod_beta)
qed

lemma avl_inv_remove:
  assumes "avl_inv t"
  shows "avl_inv (snd (AVLTree_remove t k))"
proof -
  from assms have b: "bst (avl_root t)" and a: "avl (avl_root t)"
    and s: "avl_size t = count_nodes (avl_root t)"
    by (simp_all add: avl_inv_def avl_def AVLTree_size_def)
  from s have le: "count_nodes (avl_root t) \<le> avl_size t" by simp
  from bst_remove_node[OF b, of k "avl_size t"] avl_remove_node[OF a, of k "avl_size t"]
    size_remove_node[OF le, of k] s
  show ?thesis
    by (simp add: avl_inv_def avl_def AVLTree_size_def AVLTree_remove_def case_prod_beta)
qed

lemma avl_inv_apply_op: "avl_inv t \<Longrightarrow> avl_inv (apply_op t p)"
  by (cases p) (simp_all add: avl_inv_insert avl_inv_remove)

text \<open>
  Claim C10 (implicit): after any sequence of \<open>insert\<close> and \<open>remove\<close> operations on a new
  tree, every node satisfies the search-tree order (\<open>bst\<close>), every recorded height is one
  more than the larger height of the children (\<open>heights_ok\<close>), every balance factor is
  -1, 0 or 1 (\<open>balanced\<close>), and \<open>size()\<close> is the number of nodes. The keys are any
  \<open>double\<close>s, NaN included.
\<close>

theorem avl_invariant:
  "bst (avl_root (foldl apply_op AVLTree_new ops)) \<and>
   heights_ok (avl_root (foldl apply_op AVLTree_new ops)) \<and>
   balanced (avl_root (foldl apply_op AVLTree_new ops)) \<and>
   AVLTree_size (foldl apply_op AVLTree_new ops) =
     count_nodes (avl_root (foldl apply_op AVLTree_new ops))"
proof -
  have "avl_inv (foldl apply_op AVLTree_new ops)"
    by (induction ops rule: rev_induct) (simp_all add: avl_inv_new avl_inv_apply_op)
  then show ?thesis by (simp add: avl_inv_def)
qed

theorem avl_invariant_witness:
  "AVLTree_get_all (foldl apply_op AVLTree_new
      [Insert (Num 3) ''c'', Insert (Num 2) ''b'', Insert (Num 1) ''a'', Insert NaN ''n'',
       Remove (Num 2)]) = [(Num 1, ''a''), (Num 3, ''c'')] \<and>
   bst (avl_root (foldl apply_op AVLTree_new
      [Insert (Num 3) ''c'', Insert (Num 2) ''b'', Insert (Num 1) ''a'', Insert NaN ''n'',
       Remove (Num 2)])) \<and>
   heights_ok (avl_root (foldl apply_op AVLTree_new
      [Insert (Num 3) ''c'', Insert (Num 2) ''b'', Insert (Num 1) ''a'', Insert NaN ''n'',
       Remove (Num 2)])) \<and>
   balanced (avl_root (foldl apply_op AVLTree_new
      [Insert (Num 3) ''c'', Insert (Num 2) ''b'', Insert (Num 1) ''a'', Insert NaN ''n'',
       Remove (Num 2)])) \<and>
   AVLTree_size (foldl apply_op AVLTree_new
      [Insert (Num 3) ''c'', Insert (Num 2) ''b'', Insert (Num 1) ''a'', Insert NaN ''n'',
       Remove (Num 2)]) = 2"
proof -
  let ?t = "foldl apply_op AVLTree_new
      [Insert (Num 3) ''c'', Insert (Num 2) ''b'', Insert (Num 1) ''a'', Insert NaN ''n'',
       Remove (Num 2)]"
  have r: "avl_root ?t = Node (Num 3) ''c'' 2 (Node (Num 1) ''a'' 1 Null Null) Null"
    by (simp add: AVLTree_new_def AVLTree_insert_def AVLTree_remove_def score_gt_def
        size_dec_def Let_def)
  have g: "AVLTree_get_all ?t = [(Num 1, ''a''), (Num 3, ''c'')]"
    by (simp only: AVLTree_get_all_def r inorder_traversal.simps append.simps)
  from avl_invariant[of "[Insert (Num 3) ''c'', Insert (Num 2) ''b'', Insert (Num 1) ''a'',
      Insert NaN ''n'', Remove (Num 2)]"]
  have i: "bst (avl_root ?t) \<and> heights_ok (avl_root ?t) \<and> balanced (avl_root ?t) \<and>
      AVLTree_size ?t = count_nodes (avl_root ?t)" .
  then have "AVLTree_size ?t = 2" unfolding r by simp
  with g i show ?thesis by blast
qed

section \<open>Lookup in the ordered index\<close>

text \<open>
  The key-value pairs of a tree in order; \<open>get_all\<close> returns them. A double that is not
  NaN is a \<open>Num\<close>.
\<close>

fun node_pairs :: "node \<Rightarrow> (score \<times> string) list" where
  "node_pairs Null = []"
| "node_pairs (Node k v h l r) = node_pairs l @ (k, v) # node_pairs r"

fun is_num :: "score \<Rightarrow> bool" where
  "is_num (Num x) = True"
| "is_num NaN = False"

lemma inorder_traversal_pairs: "inorder_traversal t acc = acc @ node_pairs t"
  by (induction t arbitrary: acc) simp_all

lemma get_all_pairs: "AVLTree_get_all t = node_pairs (avl_root t)"
  by (simp add: AVLTree_get_all_def inorder_traversal_pairs)

lemma keys_of_pairs: "map fst (node_pairs t) = node_keys t"
  by (induction t) simp_all

lemma score_trichotomy: "is_num a \<Longrightarrow> is_num b \<Longrightarrow> \<not> score_lt a b \<Longrightarrow> \<not> score_lt b a \<Longrightarrow> a = b"
  by (cases a; cases b) simp_all

lemma score_lt_asym: "score_lt a b \<Longrightarrow> \<not> score_lt b a"
  by (cases a; cases b) simp_all

lemma score_lt_neq: "score_lt a b \<Longrightarrow> a \<noteq> b"
  by (cases a; cases b) simp_all

text \<open>On a search tree without NaN keys, \<open>find\<close> of a key returns the value paired with it.\<close>

lemma find_node_map_of:
  assumes "bst t" "list_all is_num (node_keys t)" "is_num q"
  shows "(case find_node t q of Null \<Rightarrow> None | Node k v h l r \<Rightarrow> Some v) =
         map_of (node_pairs t) q"
  using assms
proof (induction t)
  case Null
  show ?case by simp
next
  case (Node k v h l r)
  from Node.prems have bl: "bst l" and br: "bst r" and nl: "list_all is_num (node_keys l)"
    and nr: "list_all is_num (node_keys r)" and nk: "is_num k"
    and lt: "\<forall>x\<in>set (node_keys l). score_lt x k"
    and gt: "\<forall>x\<in>set (node_keys r). score_lt k x"
    by (simp_all add: list_all_iff)
  have inl: "map_of (node_pairs l) q = None" if "q \<notin> set (node_keys l)"
    using that by (simp add: map_of_eq_None_iff keys_of_pairs[symmetric] del: keys_of_pairs)
  have inr: "map_of (node_pairs r) q = None" if "q \<notin> set (node_keys r)"
    using that by (simp add: map_of_eq_None_iff keys_of_pairs[symmetric] del: keys_of_pairs)
  show ?case
  proof (cases "score_lt q k")
    case True
    from True gt have "q \<noteq> k" "q \<notin> set (node_keys r)"
      using score_lt_neq score_lt_asym by blast+
    with True Node.IH(1)[OF bl nl Node.prems(3)] inr show ?thesis
      by (simp add: map_add_def split: option.splits)
  next
    case False
    show ?thesis
    proof (cases "score_lt k q")
      case True
      from True lt have "q \<noteq> k" "q \<notin> set (node_keys l)"
        using score_lt_neq score_lt_asym by blast+
      with True False Node.IH(2)[OF br nr Node.prems(3)] inl show ?thesis
        by (simp add: score_gt_def map_add_def split: option.splits)
    next
      case g: False
      from score_trichotomy[OF Node.prems(3) nk False g] have qk: "q = k" .
      with lt have "q \<notin> set (node_keys l)" using score_lt_irrefl by blast
      with False g qk inl show ?thesis
        by (simp add: score_gt_def map_add_def split: option.splits)
    qed
  qed
qed

lemma node_pairs_update_height [simp]: "node_pairs (update_height t) = node_pairs t"
  by (cases t) simp_all

lemma node_pairs_rotate_right [simp]: "node_pairs (rotate_right t) = node_pairs t"
  by (cases t rule: rotate_right.cases) simp_all

lemma node_pairs_rotate_left [simp]: "node_pairs (rotate_left t) = node_pairs t"
  by (cases t rule: rotate_left.cases) simp_all

lemma node_pairs_balance [simp]: "node_pairs (balance t) = node_pairs t"
  by (cases t) (simp_all add: Let_def)

lemma find_node_balance:
  assumes "bst t" "list_all is_num (node_keys t)" "is_num q"
  shows "(case find_node (balance t) q of Null \<Rightarrow> None | Node k v h l r \<Rightarrow> Some v) =
         (case find_node t q of Null \<Rightarrow> None | Node k v h l r \<Rightarrow> Some v)"
proof -
  have "bst (balance t)" "list_all is_num (node_keys (balance t))" using assms by simp_all
  from find_node_map_of[OF this assms(3)] find_node_map_of[OF assms] show ?thesis by simp
qed

lemma node_keys_Nil: "node_keys t = [] \<longleftrightarrow> t = Null"
  by (cases t) simp_all

text \<open>NaN is less than nothing and greater than nothing: in a search tree it can only be
  the key of a root without children.\<close>

lemma bst_nan:
  assumes "bst t"
  shows "list_all is_num (node_keys t) \<or> (\<exists>v h. t = Node NaN v h Null Null)"
proof (cases t)
  case Null
  then show ?thesis by simp
next
  case (Node k v h l r)
  from assms Node have lt: "\<forall>x\<in>set (node_keys l). score_lt x k"
    and gt: "\<forall>x\<in>set (node_keys r). score_lt k x"
    by (simp_all add: list_all_iff)
  show ?thesis
  proof (cases k)
    case NaN
    with lt gt have "node_keys l = []" "node_keys r = []"
      by (cases "node_keys l"; cases "node_keys r"; simp)+
    with NaN Node show ?thesis by (simp add: node_keys_Nil)
  next
    case (Num x)
    have "is_num y" if "score_lt y k \<or> score_lt k y" for y
      using that by (cases y) simp_all
    with lt gt Num Node show ?thesis by (auto simp: list_all_iff)
  qed
qed

lemma remove_node_absent:
  assumes "bst t" "list_all is_num (node_keys t)" "is_num q"
  shows "q \<notin> set (node_keys (fst (remove_node t q sz)))"
  using assms
proof (induction t arbitrary: sz)
  case Null
  show ?case by simp
next
  case (Node k v h l r)
  from Node.prems have bl: "bst l" and br: "bst r" and nl: "list_all is_num (node_keys l)"
    and nr: "list_all is_num (node_keys r)" and nk: "is_num k"
    and lt: "\<forall>x\<in>set (node_keys l). score_lt x k"
    and gt: "\<forall>x\<in>set (node_keys r). score_lt k x"
    by (simp_all add: list_all_iff)
  show ?case
  proof (cases "score_lt q k")
    case True
    from True gt have "q \<noteq> k" "q \<notin> set (node_keys r)"
      using score_lt_neq score_lt_asym by blast+
    with True Node.IH(1)[OF bl nl Node.prems(3), of sz] show ?thesis
      by (simp add: case_prod_beta del: balance.simps)
  next
    case False
    show ?thesis
    proof (cases "score_lt k q")
      case True
      from True lt have "q \<noteq> k" "q \<notin> set (node_keys l)"
        using score_lt_neq score_lt_asym by blast+
      with True False Node.IH(2)[OF br nr Node.prems(3), of sz] show ?thesis
        by (simp add: score_gt_def case_prod_beta del: balance.simps)
    next
      case g: False
      from score_trichotomy[OF Node.prems(3) nk False g] have qk: "q = k" .
      from lt qk have ql: "q \<notin> set (node_keys l)" using score_lt_irrefl by blast
      from gt qk have qr: "q \<notin> set (node_keys r)" using score_lt_irrefl by blast
      show ?thesis
      proof (cases "l = Null \<or> r = Null")
        case True
        with False g ql qr show ?thesis by (auto simp: score_gt_def)
      next
        case both: False
        then have rn: "r \<noteq> Null" by simp
        let ?m = "node_key (find_min r)"
        have keys': "node_keys (fst (remove_node r ?m sz)) = tl (node_keys r)"
          using br rn by (rule remove_min_keys)
        from find_min_key_mem[OF rn] qr have "q \<noteq> ?m" by blast
        moreover have "q \<notin> set (tl (node_keys r))"
          using qr by (cases "node_keys r") auto
        ultimately show ?thesis using False g both ql keys'
          by (simp add: score_gt_def Let_def case_prod_beta del: balance.simps)
      qed
    qed
  qed
qed

lemma remove_node_num:
  assumes "bst t" "is_num q"
  shows "list_all is_num (node_keys (fst (remove_node t q sz))) \<and>
         q \<notin> set (node_keys (fst (remove_node t q sz)))"
proof -
  from bst_nan[OF assms(1)] show ?thesis
  proof
    assume n: "list_all is_num (node_keys t)"
    with keys_remove_node[of t q sz] have "list_all is_num (node_keys (fst (remove_node t q sz)))"
      by (auto simp: list_all_iff)
    with remove_node_absent[OF assms(1) n assms(2)] show ?thesis by simp
  next
    assume "\<exists>v h. t = Node NaN v h Null Null"
    then show ?thesis by (auto simp: score_gt_def)
  qed
qed

lemma find_insert_node:
  assumes "bst t" "list_all is_num (node_keys t)" "is_num q"
  shows "(case find_node (fst (insert_node t q v sz)) q of
            Null \<Rightarrow> None | Node k' v' h' l' r' \<Rightarrow> Some v') = Some v"
  using assms
proof (induction t arbitrary: sz)
  case Null
  show ?case by (simp add: score_gt_def)
next
  case (Node k0 v0 h l r)
  from Node.prems have bl: "bst l" and br: "bst r" and nl: "list_all is_num (node_keys l)"
    and nr: "list_all is_num (node_keys r)" and nk: "is_num k0"
    by (simp_all add: list_all_iff)
  note q = Node.prems(3)
  show ?case
  proof (cases "score_lt q k0")
    case True
    let ?l' = "fst (insert_node l q v sz)"
    let ?n = "Node k0 v0 h ?l' r"
    from bst_insert_node[OF Node.prems(1), of q v sz] True
    have b: "bst ?n" by (simp add: case_prod_beta del: balance.simps bst.simps)
    from keys_insert_node[of l q v sz] nl nr nk q
    have n: "list_all is_num (node_keys ?n)" by (auto simp: list_all_iff)
    from find_node_balance[OF b n q] True Node.IH(1)[OF bl nl q, of sz] show ?thesis
      by (simp add: case_prod_beta del: balance.simps)
  next
    case False
    show ?thesis
    proof (cases "score_lt k0 q")
      case True
      let ?r' = "fst (insert_node r q v sz)"
      let ?n = "Node k0 v0 h l ?r'"
      from bst_insert_node[OF Node.prems(1), of q v sz] True False
      have b: "bst ?n" by (simp add: score_gt_def case_prod_beta del: balance.simps bst.simps)
      from keys_insert_node[of r q v sz] nl nr nk q
      have n: "list_all is_num (node_keys ?n)" by (auto simp: list_all_iff)
      from find_node_balance[OF b n q] True False Node.IH(2)[OF br nr q, of sz] show ?thesis
        by (simp add: score_gt_def case_prod_beta del: balance.simps)
    next
      case g: False
      with False show ?thesis by (simp add: score_gt_def)
    qed
  qed
qed

text \<open>
  The index after \<open>remove(s_old)\<close> and \<open>insert(s_new, m)\<close>, for two different scores that
  are not NaN: nothing is found under \<open>s_old\<close>, and \<open>m\<close> is found under \<open>s_new\<close>.
\<close>

lemma index_after_update:
  assumes b: "bst (avl_root t)" and ne: "so \<noteq> sn"
  shows "AVLTree_find (AVLTree_insert (snd (AVLTree_remove t (Num so))) (Num sn) m) (Num sn) =
           Some m"
    and "AVLTree_find (AVLTree_insert (snd (AVLTree_remove t (Num so))) (Num sn) m) (Num so) =
           None"
proof -
  let ?t1 = "fst (remove_node (avl_root t) (Num so) (avl_size t))"
  let ?s1 = "snd (remove_node (avl_root t) (Num so) (avl_size t))"
  let ?t2 = "fst (insert_node ?t1 (Num sn) m ?s1)"
  have r2: "avl_root (AVLTree_insert (snd (AVLTree_remove t (Num so))) (Num sn) m) = ?t2"
    by (simp add: AVLTree_insert_def AVLTree_remove_def case_prod_beta)
  have b1: "bst ?t1" using b by (rule bst_remove_node)
  from remove_node_num[OF b, of "Num so" "avl_size t"]
  have n1: "list_all is_num (node_keys ?t1)" and a1: "Num so \<notin> set (node_keys ?t1)"
    by simp_all
  have b2: "bst ?t2" using b1 by (rule bst_insert_node)
  from keys_insert_node[of ?t1 "Num sn" m ?s1] n1
  have n2: "list_all is_num (node_keys ?t2)" by (auto simp: list_all_iff)
  from keys_insert_node[of ?t1 "Num sn" m ?s1] a1 ne
  have a2: "Num so \<notin> set (node_keys ?t2)" by auto
  from find_insert_node[OF b1 n1, of "Num sn" m ?s1]
  show "AVLTree_find (AVLTree_insert (snd (AVLTree_remove t (Num so))) (Num sn) m) (Num sn) =
           Some m"
    by (simp add: AVLTree_find_def r2)
  from a2 have "map_of (node_pairs ?t2) (Num so) = None"
    by (simp add: map_of_eq_None_iff keys_of_pairs[symmetric])
  with find_node_map_of[OF b2 n2, of "Num so"]
  show "AVLTree_find (AVLTree_insert (snd (AVLTree_remove t (Num so))) (Num sn) m) (Num so) =
           None"
    by (simp add: AVLTree_find_def r2)
qed

section \<open>ZADD of a member that is already in the set\<close>



end
